theory Spec2Isabelle
  imports Main
begin

section \<open>Cell values and exceptions\<close>

text \<open>
  Cells are Python integers: \<open>UNKNOWN = -1\<close>, \<open>EMPTY = 0\<close>, \<open>FILLED = 1\<close>
  (\<open>solver.py\<close>, lines 7 to 9). Block lengths, line lengths and positions are natural
  numbers: every caller validates clue values as positive integers before the solver
  runs, and positions come from \<open>range\<close> over non-negative bounds.
\<close>

abbreviation UNKNOWN :: int where "UNKNOWN \<equiv> - 1"
abbreviation EMPTY :: int where "EMPTY \<equiv> 0"
abbreviation FILLED :: int where "FILLED \<equiv> 1"

datatype exn = Cancelled | IndexError | ValueError string

text \<open>\<open>xs[i]\<close> for a non-negative index: Python raises \<open>IndexError\<close> out of range.\<close>

definition item :: "'a list \<Rightarrow> nat \<Rightarrow> exn + 'a" where
  "item xs i = (if i < length xs then Inr (xs ! i) else Inl IndexError)"

text \<open>A \<open>for\<close> loop whose body may raise: the first exception ends the loop.\<close>

fun for_each :: "('a \<Rightarrow> 's \<Rightarrow> exn + 's) \<Rightarrow> 'a list \<Rightarrow> 's \<Rightarrow> exn + 's" where
  "for_each f [] s = Inr s"
| "for_each f (x # xs) s = (case f x s of Inl e \<Rightarrow> Inl e | Inr s' \<Rightarrow> for_each f xs s')"

section \<open>The line candidate generator\<close>

text \<open>
  The scanning loops of \<open>place\<close>,
  \<^verbatim>\<open>for i in range(a, b): if line_state[i] == v: ...stop...\<close>:
  \<open>Inr True\<close> when a cell equal to \<open>v\<close> is met, \<open>Inr False\<close> when the range is
  exhausted, \<open>IndexError\<close> when an index before the first hit is out of range.
\<close>

fun holds_at :: "int list \<Rightarrow> int \<Rightarrow> nat list \<Rightarrow> exn + bool" where
  "holds_at ls v [] = Inr False"
| "holds_at ls v (i # is) =
     (case item ls i of Inl e \<Rightarrow> Inl e
      | Inr x \<Rightarrow> if x = v then Inr True else holds_at ls v is)"

text \<open>
  \<^verbatim>\<open>for i in range(start, start + block): line[i] = v\<close>. The writes are in range:
  \<open>start \<le> max_start\<close> gives \<open>start + block \<le> length\<close>, and \<open>line\<close> is a local list of
  \<open>length\<close> cells.
\<close>

fun fill :: "int list \<Rightarrow> nat list \<Rightarrow> int \<Rightarrow> int list" where
  "fill line [] v = line"
| "fill line (i # is) v = fill (line[i := v]) is v"

text \<open>
  The state of \<open>place\<close>: the shared working \<open>line\<close> and the \<open>candidates\<close> collected so
  far. \<open>try_start\<close> is one iteration of the loop over \<open>start\<close>; \<open>rec\<close> is
  \<open>place (idx + 1)\<close>, and \<open>is_last\<close> says that \<open>idx = len(blocks) - 1\<close>.
\<close>

type_synonym pst = "int list \<times> int list list"

definition try_start ::
  "(nat \<Rightarrow> pst \<Rightarrow> exn + pst) \<Rightarrow> nat \<Rightarrow> int list \<Rightarrow> nat \<Rightarrow> bool \<Rightarrow> nat \<Rightarrow> nat \<Rightarrow> pst \<Rightarrow> exn + pst"
where
  "try_start rec L ls block is_last pos start st =
    (case holds_at ls FILLED [pos..<start] of
       Inl e \<Rightarrow> Inl e
     | Inr True \<Rightarrow> Inr st
     | Inr False \<Rightarrow>
    (case holds_at ls EMPTY [start..<start + block] of
       Inl e \<Rightarrow> Inl e
     | Inr True \<Rightarrow> Inr st
     | Inr False \<Rightarrow>
       let line1 = fill (fst st) [start..<start + block] FILLED;
           next_pos = start + block
       in if \<not> is_last then
            if next_pos \<ge> L then Inr (fill line1 [start..<start + block] EMPTY, snd st)
            else
              (case item ls next_pos of
                 Inl e \<Rightarrow> Inl e
               | Inr x \<Rightarrow>
                 (case (if x = FILLED then Inr (line1, snd st)
                        else rec (next_pos + 1) (line1[next_pos := EMPTY], snd st)) of
                    Inl e \<Rightarrow> Inl e
                  | Inr (line2, cands) \<Rightarrow>
                      Inr (fill (line2[next_pos := EMPTY]) [start..<start + block] EMPTY, cands)))
          else
            (case rec next_pos (line1, snd st) of
               Inl e \<Rightarrow> Inl e
             | Inr (line2, cands) \<Rightarrow> Inr (fill line2 [start..<start + block] EMPTY, cands))))"

text \<open>
  \<open>place\<close> over the blocks still to be placed, \<open>blocks[idx:]\<close>. \<open>max_start\<close> is computed
  in \<open>int\<close>: it is negative when the blocks do not fit, and the range is then empty.
\<close>

primrec place :: "nat \<Rightarrow> int list \<Rightarrow> nat list \<Rightarrow> nat \<Rightarrow> pst \<Rightarrow> exn + pst" where
  "place L ls [] pos st =
     (case holds_at ls FILLED [pos..<L] of
        Inl e \<Rightarrow> Inl e
      | Inr True \<Rightarrow> Inr st
      | Inr False \<Rightarrow> Inr (fst st, snd st @ [fst st]))"
| "place L ls (block # remaining) pos st =
     (let min_rem_len = sum_list remaining + length remaining;
          max_start = int L - int (block + min_rem_len)
      in for_each (try_start (place L ls remaining) L ls block (remaining = []) pos)
           [pos..<nat (max_start + 1)] st)"

definition line_candidates :: "nat \<Rightarrow> nat list \<Rightarrow> int list \<Rightarrow> exn + int list list" where
  "line_candidates L blocks ls =
     (if blocks = [] then
        (if FILLED \<in> set ls then Inr [] else Inr [replicate L EMPTY])
      else
        (case place L ls blocks 0 (replicate L EMPTY, []) of
           Inl e \<Rightarrow> Inl e
         | Inr (line, cands) \<Rightarrow> Inr cands))"


subsection \<open>Maximal runs of filled cells\<close>

text \<open>
  The lengths of the maximal runs of \<open>FILLED\<close> cells of a line, left to right;
  \<open>runs_from n\<close> carries the length \<open>n\<close> of the run in progress.
\<close>


fun runs_from :: "nat \<Rightarrow> int list \<Rightarrow> nat list" where
  "runs_from n [] = (if n = 0 then [] else [n])"
| "runs_from n (x # xs) =
     (if x = FILLED then runs_from (Suc n) xs
      else if n = 0 then runs_from 0 xs else n # runs_from 0 xs)"

definition filled_runs :: "int list \<Rightarrow> nat list" where
  "filled_runs xs = runs_from 0 xs"



subsection \<open>Properties of the generator\<close>

lemma item_Inr: "item xs i = Inr x \<longleftrightarrow> i < length xs \<and> x = xs ! i"
  by (auto simp: item_def)

lemma holds_at_False:
  "holds_at ls v is = Inr False \<Longrightarrow> \<forall>i\<in>set is. i < length ls \<and> ls ! i \<noteq> v"
  by (induction "is") (auto simp: item_def split: if_splits)

lemma length_fill [simp]: "length (fill line is v) = length line"
  by (induction "is" arbitrary: line) auto

lemma nth_fill:
  "i < length line \<Longrightarrow> fill line is v ! i = (if i \<in> set is then v else line ! i)"
  by (induction "is" arbitrary: line) (auto simp: nth_list_update)

lemma runs_from_filled: "runs_from n (replicate k FILLED @ xs) = runs_from (n + k) xs"
  by (induction k arbitrary: n) auto

lemma runs_from_empty: "runs_from 0 (replicate k EMPTY @ xs) = runs_from 0 xs"
  by (induction k) auto

lemma runs_from_no_filled:
  "FILLED \<notin> set xs \<Longrightarrow> runs_from n xs = (if n = 0 then [] else [n])"
  by (induction xs arbitrary: n) auto

lemma all_nth_replicate: "(\<forall>i<length xs. xs ! i = v) \<Longrightarrow> xs = replicate (length xs) v"
  by (simp add: list_eq_iff_nth_eq)

lemma drop_as_replicate:
  assumes "pos \<le> start" "start \<le> length c" "\<forall>i. pos \<le> i \<and> i < start \<longrightarrow> c ! i = v"
  shows "drop pos c = replicate (start - pos) v @ drop start c"
proof -
  have "drop pos c = take (start - pos) (drop pos c) @ drop (start - pos) (drop pos c)"
    by (rule append_take_drop_id[symmetric])
  moreover have "drop (start - pos) (drop pos c) = drop start c"
    using assms by simp
  moreover have "take (start - pos) (drop pos c) = replicate (start - pos) v"
    using assms by (simp add: list_eq_iff_nth_eq)
  ultimately show ?thesis by simp
qed

lemma for_each_collect:
  assumes step: "\<And>x cands s'. x \<in> set xs \<Longrightarrow> f x (line, cands) = Inr s' \<Longrightarrow>
            fst s' = line \<and> (\<exists>new. snd s' = cands @ new \<and> (\<forall>c\<in>set new. Q c))"
      and run: "for_each f xs (line, cands) = Inr s'"
  shows "fst s' = line \<and> (\<exists>new. snd s' = cands @ new \<and> (\<forall>c\<in>set new. Q c))"
  using assms
proof (induction xs arbitrary: cands)
  case Nil
  then show ?case by auto
next
  case (Cons x xs)
  from Cons.prems(2) obtain s1 where s1: "f x (line, cands) = Inr s1"
    and rest: "for_each f xs s1 = Inr s'"
    by (auto split: sum.splits)
  from Cons.prems(1)[OF _ s1] obtain new1 where
    l1: "fst s1 = line" and n1: "snd s1 = cands @ new1" and q1: "\<forall>c\<in>set new1. Q c"
    by auto
  have s1eq: "s1 = (line, cands @ new1)" using l1 n1 by (cases s1) auto
  have step': "fst t = line \<and> (\<exists>new. snd t = cs @ new \<and> (\<forall>c\<in>set new. Q c))"
    if "y \<in> set xs" "f y (line, cs) = Inr t" for y cs t
    using Cons.prems(1)[of y cs t] that by simp
  have run': "for_each f xs (line, cands @ new1) = Inr s'"
    using rest s1eq by simp
  have "fst s' = line \<and> (\<exists>new. snd s' = (cands @ new1) @ new \<and> (\<forall>c\<in>set new. Q c))"
    by (rule Cons.IH[OF step' run'])
  then obtain new2 where "fst s' = line" "snd s' = (cands @ new1) @ new2" "\<forall>c\<in>set new2. Q c"
    by auto
  with q1 show ?case by (intro conjI exI[of _ "new1 @ new2"]) auto
qed


lemma runs_from_nil_iff: "runs_from n xs = [] \<longleftrightarrow> n = 0 \<and> FILLED \<notin> set xs"
  by (induction xs arbitrary: n) auto

definition placed :: "nat \<Rightarrow> int list \<Rightarrow> nat list \<Rightarrow> nat \<Rightarrow> int list \<Rightarrow> int list \<Rightarrow> bool" where
  "placed L ls bs pos line c \<longleftrightarrow>
     length c = L \<and> (\<forall>i<pos. c ! i = line ! i) \<and>
     (\<forall>i. pos \<le> i \<and> i < L \<longrightarrow>
        i < length ls \<and> (c ! i = EMPTY \<or> c ! i = FILLED) \<and>
        (ls ! i = FILLED \<longrightarrow> c ! i = FILLED) \<and> (ls ! i = EMPTY \<longrightarrow> c ! i = EMPTY)) \<and>
     ((\<forall>b\<in>set bs. 0 < b) \<longrightarrow> filled_runs (drop pos c) = bs)"

lemma fill_restore:
  assumes "length line = L" "start + b \<le> L" "pos \<le> start"
    and "\<forall>i. pos \<le> i \<and> i < L \<longrightarrow> line ! i = EMPTY"
  shows "fill (fill line [start..<start + b] FILLED) [start..<start + b] EMPTY = line"
  using assms by (auto simp: list_eq_iff_nth_eq nth_fill)

lemma fill_restore_sep:
  assumes "length line = L" "start + b < L" "pos \<le> start"
    and "\<forall>i. pos \<le> i \<and> i < L \<longrightarrow> line ! i = EMPTY"
  shows "fill ((fill line [start..<start + b] FILLED)[start + b := EMPTY]) [start..<start + b] EMPTY
           = line"
  using assms by (auto simp: list_eq_iff_nth_eq nth_fill nth_list_update)

lemma placed_last:
  assumes c: "placed L ls [] (start + b) (fill line [start..<start + b] FILLED) c"
    and len: "length line = L" and b: "start + b \<le> L" "pos \<le> start"
    and emp: "\<forall>i. pos \<le> i \<and> i < L \<longrightarrow> line ! i = EMPTY"
    and gap: "\<forall>i\<in>set [pos..<start]. i < length ls \<and> ls ! i \<noteq> FILLED"
    and blk: "\<forall>i\<in>set [start..<start + b]. i < length ls \<and> ls ! i \<noteq> EMPTY"
  shows "placed L ls [b] pos line c"
proof -
  let ?line1 = "fill line [start..<start + b] FILLED"
  from c have lc: "length c = L"
    and pre: "\<forall>i<start + b. c ! i = ?line1 ! i"
    and post: "\<forall>i. start + b \<le> i \<and> i < L \<longrightarrow>
        i < length ls \<and> (c ! i = EMPTY \<or> c ! i = FILLED) \<and>
        (ls ! i = FILLED \<longrightarrow> c ! i = FILLED) \<and> (ls ! i = EMPTY \<longrightarrow> c ! i = EMPTY)"
    and runs: "filled_runs (drop (start + b) c) = []"
    by (auto simp: placed_def)
  have c_gap: "c ! i = EMPTY" if "pos \<le> i" "i < start" for i
    using that pre emp len b by (simp add: nth_fill)
  have c_blk: "c ! i = FILLED" if "start \<le> i" "i < start + b" for i
    using that pre len b by (simp add: nth_fill)
  have c_pre: "c ! i = line ! i" if "i < pos" for i
    using that pre len b by (simp add: nth_fill)
  have d1: "drop pos c = replicate (start - pos) EMPTY @ drop start c"
    by (rule drop_as_replicate) (use b lc c_gap in auto)
  have d2: "drop start c = replicate (start + b - start) FILLED @ drop (start + b) c"
    by (rule drop_as_replicate) (use b lc c_blk in auto)
  have nf: "FILLED \<notin> set (drop (start + b) c)"
    using runs by (simp add: filled_runs_def runs_from_nil_iff)
  have "0 < b \<Longrightarrow> filled_runs (drop pos c) = [b]"
    using d1 d2 nf by (simp add: filled_runs_def runs_from_empty runs_from_filled runs_from_no_filled)
  moreover have "\<forall>i. pos \<le> i \<and> i < L \<longrightarrow>
        i < length ls \<and> (c ! i = EMPTY \<or> c ! i = FILLED) \<and>
        (ls ! i = FILLED \<longrightarrow> c ! i = FILLED) \<and> (ls ! i = EMPTY \<longrightarrow> c ! i = EMPTY)"
  proof (intro allI impI)
    fix i assume i: "pos \<le> i \<and> i < L"
    consider "i < start" | "start \<le> i" "i < start + b" | "start + b \<le> i" by linarith
    then show "i < length ls \<and> (c ! i = EMPTY \<or> c ! i = FILLED) \<and>
        (ls ! i = FILLED \<longrightarrow> c ! i = FILLED) \<and> (ls ! i = EMPTY \<longrightarrow> c ! i = EMPTY)"
    proof cases
      case 1
      then show ?thesis using gap c_gap[of i] i by auto
    next
      case 2
      then show ?thesis using blk c_blk[of i] i by auto
    next
      case 3
      then show ?thesis using post i by auto
    qed
  qed
  ultimately show ?thesis using lc c_pre by (simp add: placed_def)
qed


lemma placed_sep:
  assumes c: "placed L ls rest (Suc (start + b))
                ((fill line [start..<start + b] FILLED)[start + b := EMPTY]) c"
    and len: "length line = L" and b: "start + b < L" "pos \<le> start"
    and emp: "\<forall>i. pos \<le> i \<and> i < L \<longrightarrow> line ! i = EMPTY"
    and gap: "\<forall>i\<in>set [pos..<start]. i < length ls \<and> ls ! i \<noteq> FILLED"
    and blk: "\<forall>i\<in>set [start..<start + b]. i < length ls \<and> ls ! i \<noteq> EMPTY"
    and sep: "start + b < length ls" "ls ! (start + b) \<noteq> FILLED"
  shows "placed L ls (b # rest) pos line c"
proof -
  let ?line1 = "(fill line [start..<start + b] FILLED)[start + b := EMPTY]"
  from c have lc: "length c = L"
    and pre: "\<forall>i<Suc (start + b). c ! i = ?line1 ! i"
    and post: "\<forall>i. Suc (start + b) \<le> i \<and> i < L \<longrightarrow>
        i < length ls \<and> (c ! i = EMPTY \<or> c ! i = FILLED) \<and>
        (ls ! i = FILLED \<longrightarrow> c ! i = FILLED) \<and> (ls ! i = EMPTY \<longrightarrow> c ! i = EMPTY)"
    and runs: "(\<forall>b\<in>set rest. 0 < b) \<longrightarrow> filled_runs (drop (Suc (start + b)) c) = rest"
    by (auto simp: placed_def)
  have c_gap: "c ! i = EMPTY" if "pos \<le> i" "i < start" for i
    using that pre emp len b by (simp add: nth_fill nth_list_update)
  have c_blk: "c ! i = FILLED" if "start \<le> i" "i < start + b" for i
    using that pre len b by (simp add: nth_fill nth_list_update)
  have c_sep: "c ! (start + b) = EMPTY"
    using pre len b by (simp add: nth_fill nth_list_update)
  have c_pre: "c ! i = line ! i" if "i < pos" for i
    using that pre len b by (simp add: nth_fill nth_list_update)
  have d1: "drop pos c = replicate (start - pos) EMPTY @ drop start c"
    by (rule drop_as_replicate) (use b lc c_gap in auto)
  have d2: "drop start c = replicate (start + b - start) FILLED @ drop (start + b) c"
    by (rule drop_as_replicate) (use b lc c_blk in auto)
  have d3: "drop (start + b) c = EMPTY # drop (Suc (start + b)) c"
    using Cons_nth_drop_Suc[of "start + b" c] b lc c_sep by simp
  have "0 < b \<Longrightarrow> filled_runs (drop pos c) = b # filled_runs (drop (Suc (start + b)) c)"
    using d1 d2 d3 by (simp add: filled_runs_def runs_from_empty runs_from_filled)
  then have "(\<forall>b'\<in>set (b # rest). 0 < b') \<longrightarrow> filled_runs (drop pos c) = b # rest"
    using runs by simp
  moreover have "\<forall>i. pos \<le> i \<and> i < L \<longrightarrow>
        i < length ls \<and> (c ! i = EMPTY \<or> c ! i = FILLED) \<and>
        (ls ! i = FILLED \<longrightarrow> c ! i = FILLED) \<and> (ls ! i = EMPTY \<longrightarrow> c ! i = EMPTY)"
  proof (intro allI impI)
    fix i assume i: "pos \<le> i \<and> i < L"
    consider "i < start" | "start \<le> i" "i < start + b" | "i = start + b" | "Suc (start + b) \<le> i"
      by linarith
    then show "i < length ls \<and> (c ! i = EMPTY \<or> c ! i = FILLED) \<and>
        (ls ! i = FILLED \<longrightarrow> c ! i = FILLED) \<and> (ls ! i = EMPTY \<longrightarrow> c ! i = EMPTY)"
    proof cases
      case 1
      then show ?thesis using gap c_gap[of i] i by auto
    next
      case 2
      then show ?thesis using blk c_blk[of i] i by auto
    next
      case 3
      then show ?thesis using sep c_sep by auto
    next
      case 4
      then show ?thesis using post i by auto
    qed
  qed
  ultimately show ?thesis using lc c_pre by (simp add: placed_def)
qed

lemma place_collect:
  assumes "place L ls bs pos (line, cands) = Inr s'" "length line = L" "pos \<le> L"
    and "\<forall>i. pos \<le> i \<and> i < L \<longrightarrow> line ! i = EMPTY"
  shows "fst s' = line \<and> (\<exists>new. snd s' = cands @ new \<and> (\<forall>c\<in>set new. placed L ls bs pos line c))"
  using assms
proof (induction bs arbitrary: pos line cands s')
  case Nil
  show ?case
  proof (cases "holds_at ls FILLED [pos..<L] = Inr False")
    case True
    then have s': "s' = (line, cands @ [line])" using Nil.prems(1) by simp
    have "placed L ls [] pos line line"
      using holds_at_False[OF True] Nil.prems(2,4)
      by (auto simp: placed_def filled_runs_def runs_from_nil_iff in_set_conv_nth)
    then show ?thesis using s' by simp
  next
    case False
    then have "s' = (line, cands)" using Nil.prems(1) by (auto split: sum.splits bool.splits)
    then show ?thesis by simp
  qed
next
  case (Cons b rest)
  let ?starts = "[pos..<nat (int L - int (b + (sum_list rest + length rest)) + 1)]"
  let ?f = "try_start (place L ls rest) L ls b (rest = []) pos"
  have run: "for_each ?f ?starts (line, cands) = Inr s'"
    using Cons.prems(1) by (simp add: Let_def)
  note len = Cons.prems(2) and emp = Cons.prems(4)
  show ?case
  proof (rule for_each_collect[OF _ run])
    fix start cs t
    assume start: "start \<in> set ?starts" and t: "?f start (line, cs) = Inr t"
    have ps: "pos \<le> start" and fit: "start + b + (sum_list rest + length rest) \<le> L"
      using start by auto
    show "fst t = line \<and> (\<exists>new. snd t = cs @ new \<and> (\<forall>c\<in>set new. placed L ls (b # rest) pos line c))"
    proof (cases "holds_at ls FILLED [pos..<start] = Inr False \<and>
                  holds_at ls EMPTY [start..<start + b] = Inr False")
      case False
      then have "t = (line, cs)"
        using t by (auto simp: try_start_def split: sum.splits bool.splits)
      then show ?thesis by simp
    next
      case True
      note gap = holds_at_False[OF conjunct1[OF True]]
        and blk = holds_at_False[OF conjunct2[OF True]]
      let ?line1 = "fill line [start..<start + b] FILLED"
      show ?thesis
      proof (cases "rest = []")
        case True
        with t \<open>_ \<and> _\<close> obtain line2 cands2 where
          rec: "place L ls [] (start + b) (?line1, cs) = Inr (line2, cands2)"
          and t_eq: "t = (fill line2 [start..<start + b] EMPTY, cands2)"
          by (auto simp: try_start_def Let_def split: sum.splits)
        from rec True have rec': "place L ls rest (start + b) (?line1, cs) = Inr (line2, cands2)"
          by simp
        have "fst (line2, cands2) = ?line1 \<and> (\<exists>new. snd (line2, cands2) = cs @ new \<and>
                (\<forall>c\<in>set new. placed L ls rest (start + b) ?line1 c))"
          by (rule Cons.IH[OF rec']) (use len fit emp ps in \<open>auto simp: nth_fill\<close>)
        then obtain new where l2: "line2 = ?line1" and c2: "cands2 = cs @ new"
          and pl: "\<forall>c\<in>set new. placed L ls [] (start + b) ?line1 c"
          using True by auto
        have le: "start + b \<le> L" using fit by simp
        have "fst t = line"
          using t_eq l2 fill_restore[OF len le ps emp] by simp
        moreover have "\<forall>c\<in>set new. placed L ls (b # rest) pos line c"
          using pl placed_last[OF _ len le ps emp gap blk] True by auto
        ultimately show ?thesis using t_eq c2 by auto
      next
        case False
        then have lt: "start + b < L" using fit by (cases rest) auto
        show ?thesis
        proof (cases "item ls (start + b)")
          case (Inl e)
          then show ?thesis
            using t \<open>_ \<and> _\<close> False lt by (simp add: try_start_def Let_def)
        next
          case (Inr x)
          then have x: "start + b < length ls" "x = ls ! (start + b)"
            by (auto simp: item_Inr)
          show ?thesis
          proof (cases "x = FILLED")
            case True
            then have "t = (fill (?line1[start + b := EMPTY]) [start..<start + b] EMPTY, cs)"
              using t \<open>_ \<and> _\<close> False lt Inr by (simp add: try_start_def Let_def)
            then have "t = (line, cs)"
              using fill_restore_sep[OF len lt ps emp] by simp
            then show ?thesis by simp
          next
            case nf: False
            let ?line1' = "?line1[start + b := EMPTY]"
            from t \<open>_ \<and> _\<close> False lt Inr nf obtain line2 cands2 where
              rec: "place L ls rest (Suc (start + b)) (?line1', cs) = Inr (line2, cands2)"
              and t_eq: "t = (fill (line2[start + b := EMPTY]) [start..<start + b] EMPTY, cands2)"
              by (auto simp: try_start_def Let_def split: sum.splits)
            have "fst (line2, cands2) = ?line1' \<and> (\<exists>new. snd (line2, cands2) = cs @ new \<and>
                (\<forall>c\<in>set new. placed L ls rest (Suc (start + b)) ?line1' c))"
              by (rule Cons.IH[OF rec])
                (use len lt emp ps in \<open>auto simp: nth_fill nth_list_update\<close>)
            then obtain new where l2: "line2 = ?line1'" and c2: "cands2 = cs @ new"
              and pl: "\<forall>c\<in>set new. placed L ls rest (Suc (start + b)) ?line1' c"
              by auto
            have "fst t = line"
              using t_eq l2 fill_restore_sep[OF len lt ps emp] by simp
            moreover have "\<forall>c\<in>set new. placed L ls (b # rest) pos line c"
              using pl placed_sep[OF _ len lt ps emp gap blk x(1)] nf x(2) by auto
            ultimately show ?thesis using t_eq c2 by auto
          qed
        qed
      qed
    qed
  qed
qed


lemma holds_at_total:
  "\<forall>i\<in>set is. i < length ls \<Longrightarrow> holds_at ls v is = Inr (\<exists>i\<in>set is. ls ! i = v)"
  by (induction "is") (auto simp: item_def)

lemma for_each_total:
  "(\<And>x s. x \<in> set xs \<Longrightarrow> \<exists>s'. f x s = Inr s') \<Longrightarrow> \<exists>s'. for_each f xs s = Inr s'"
proof (induction xs arbitrary: s)
  case Nil
  then show ?case by simp
next
  case (Cons x xs)
  from Cons.prems[of x s] obtain s1 where "f x s = Inr s1" by auto
  moreover from Cons.IH[of s1] Cons.prems obtain s2 where "for_each f xs s1 = Inr s2"
    by auto
  ultimately show ?case by simp
qed

lemma try_start_total:
  assumes rec: "\<And>p st. \<exists>s'. rec p st = Inr s'"
    and ls: "L \<le> length ls" and fit: "start + b \<le> L" "pos \<le> start"
  shows "\<exists>s'. try_start rec L ls b is_last pos start st = Inr s'"
proof -
  have g: "holds_at ls FILLED [pos..<start] = Inr (\<exists>i\<in>set [pos..<start]. ls ! i = FILLED)"
    by (rule holds_at_total) (use ls fit in auto)
  have k: "holds_at ls EMPTY [start..<start + b] = Inr (\<exists>i\<in>set [start..<start + b]. ls ! i = EMPTY)"
    by (rule holds_at_total) (use ls fit in auto)
  have it: "start + b < L \<Longrightarrow> item ls (start + b) = Inr (ls ! (start + b))"
    using ls by (simp add: item_def)
  obtain a1 where a1: "rec (start + b) (fill (fst st) [start..<start + b] FILLED, snd st) = Inr a1"
    using rec by blast
  obtain a2 where a2: "rec (Suc (start + b))
      ((fill (fst st) [start..<start + b] FILLED)[start + b := EMPTY], snd st) = Inr a2"
    using rec by blast
  show ?thesis
    unfolding try_start_def g k
    using a1 a2 it by (auto simp: Let_def split: prod.splits bool.splits)
qed

lemma place_total: "L \<le> length ls \<Longrightarrow> \<exists>s'. place L ls bs pos st = Inr s'"
proof (induction bs arbitrary: pos st)
  case Nil
  have "holds_at ls FILLED [pos..<L] = Inr (\<exists>i\<in>set [pos..<L]. ls ! i = FILLED)"
    by (rule holds_at_total) (use Nil in auto)
  then show ?case by (simp split: bool.splits)
next
  case (Cons b rest)
  show ?case
    unfolding place.simps Let_def
  proof (rule for_each_total)
    fix start s
    assume "start \<in> set [pos..<nat (int L - int (b + (sum_list rest + length rest)) + 1)]"
    then have "start + b \<le> L" "pos \<le> start" by auto
    then show "\<exists>s'. try_start (place L ls rest) L ls b (rest = []) pos start s = Inr s'"
      using Cons by (intro try_start_total) auto
  qed
qed

lemma line_candidates_total:
  "L \<le> length ls \<Longrightarrow> \<exists>cands. line_candidates L blocks ls = Inr cands"
  using place_total[of L ls blocks 0 "(replicate L EMPTY, [])"]
  by (auto simp: line_candidates_def split: prod.splits)

lemma line_candidates_cells:
  assumes "line_candidates L blocks ls = Inr cands" "c \<in> set cands"
  shows "length c = L"
    and "i < L \<Longrightarrow> c ! i = EMPTY \<or> c ! i = FILLED"
    and "i < L \<Longrightarrow> i < length ls \<Longrightarrow> ls ! i = FILLED \<Longrightarrow> c ! i = FILLED"
    and "i < L \<Longrightarrow> i < length ls \<Longrightarrow> ls ! i = EMPTY \<Longrightarrow> c ! i = EMPTY"
    and "\<forall>b\<in>set blocks. 0 < b \<Longrightarrow> filled_runs c = blocks"
proof -
  have "length c = L \<and> (i < L \<longrightarrow> (c ! i = EMPTY \<or> c ! i = FILLED) \<and>
      (i < length ls \<longrightarrow> (ls ! i = FILLED \<longrightarrow> c ! i = FILLED) \<and> (ls ! i = EMPTY \<longrightarrow> c ! i = EMPTY)))
     \<and> ((\<forall>b\<in>set blocks. 0 < b) \<longrightarrow> filled_runs c = blocks)"
  proof (cases "blocks = []")
    case True
    with assms have "c = replicate L EMPTY" "FILLED \<notin> set ls"
      by (auto simp: line_candidates_def split: if_splits)
    then show ?thesis using True
      by (auto simp: filled_runs_def runs_from_nil_iff in_set_conv_nth)
  next
    case False
    with assms obtain line' where
      "place L ls blocks 0 (replicate L EMPTY, []) = Inr (line', cands)"
      by (auto simp: line_candidates_def split: sum.splits)
    from place_collect[OF this] assms(2) have "placed L ls blocks 0 (replicate L EMPTY) c"
      by auto
    then show ?thesis by (auto simp: placed_def)
  qed
  then show "length c = L"
    and "i < L \<Longrightarrow> c ! i = EMPTY \<or> c ! i = FILLED"
    and "i < L \<Longrightarrow> i < length ls \<Longrightarrow> ls ! i = FILLED \<Longrightarrow> c ! i = FILLED"
    and "i < L \<Longrightarrow> i < length ls \<Longrightarrow> ls ! i = EMPTY \<Longrightarrow> c ! i = EMPTY"
    and "\<forall>b\<in>set blocks. 0 < b \<Longrightarrow> filled_runs c = blocks"
    by auto
qed

lemma line_candidates_needs_cells:
  assumes "line_candidates L blocks ls = Inr cands" "cands \<noteq> []" "blocks \<noteq> []"
  shows "L \<le> length ls"
proof -
  from assms obtain line' where
    p: "place L ls blocks 0 (replicate L EMPTY, []) = Inr (line', cands)"
    by (auto simp: line_candidates_def split: sum.splits)
  from assms(2) obtain c where c: "c \<in> set cands" by (cases cands) auto
  from place_collect[OF p] c have "placed L ls blocks 0 (replicate L EMPTY) c"
    by auto
  then have "\<forall>i<L. i < length ls" by (auto simp: placed_def)
  then show ?thesis by (cases L) auto
qed


text \<open>
  C1. For a line state of \<open>L\<close> cells and a sequence of positive block lengths, the
  generator returns (without raising), and every candidate it returns, cut into its
  maximal runs of \<open>FILLED\<close> cells, gives exactly the block sequence, in order.
\<close>

theorem candidates_split_into_blocks:
  assumes "length line_state = L" and "\<forall>b\<in>set blocks. 0 < b"
  shows "\<exists>cands. line_candidates L blocks line_state = Inr cands \<and>
           (\<forall>c\<in>set cands. filled_runs c = blocks)"
proof -
  from assms(1) obtain cands where c: "line_candidates L blocks line_state = Inr cands"
    using line_candidates_total[of L line_state blocks] by auto
  then show ?thesis using line_candidates_cells(5)[OF c _ assms(2)] by auto
qed

theorem candidates_split_into_blocks_witness:
  "line_candidates 5 [2, 1] [UNKNOWN, UNKNOWN, EMPTY, UNKNOWN, UNKNOWN] =
      Inr [[FILLED, FILLED, EMPTY, FILLED, EMPTY], [FILLED, FILLED, EMPTY, EMPTY, FILLED]] \<and>
   filled_runs [FILLED, FILLED, EMPTY, FILLED, EMPTY] = [2, 1] \<and>
   filled_runs [FILLED, FILLED, EMPTY, EMPTY, FILLED] = [2, 1]"
proof -
  have ev: "line_candidates 5 [2, 1] [UNKNOWN, UNKNOWN, EMPTY, UNKNOWN, UNKNOWN] =
      Inr [[FILLED, FILLED, EMPTY, FILLED, EMPTY], [FILLED, FILLED, EMPTY, EMPTY, FILLED]]"
    by code_simp
  from candidates_split_into_blocks[of "[UNKNOWN, UNKNOWN, EMPTY, UNKNOWN, UNKNOWN]" 5 "[2, 1]"]
  show ?thesis unfolding ev by simp
qed

text \<open>
  C2. For a line state of \<open>L\<close> cells the generator returns, every candidate has \<open>L\<close>
  cells and agrees with the line state wherever that is \<open>FILLED\<close> or \<open>EMPTY\<close>; for
  an empty block sequence the result is the single all-\<open>EMPTY\<close> line when no cell of
  the line state is \<open>FILLED\<close>, and no candidate otherwise.
\<close>

theorem candidates_consistent_with_line_state:
  assumes "length line_state = L"
  shows "\<exists>cands. line_candidates L blocks line_state = Inr cands \<and>
           (\<forall>c\<in>set cands. length c = L \<and>
              (\<forall>i<L. (line_state ! i = FILLED \<longrightarrow> c ! i = FILLED) \<and>
                      (line_state ! i = EMPTY \<longrightarrow> c ! i = EMPTY))) \<and>
           (blocks = [] \<longrightarrow>
              cands = (if FILLED \<in> set line_state then [] else [replicate L EMPTY]))"
proof -
  from assms obtain cands where c: "line_candidates L blocks line_state = Inr cands"
    using line_candidates_total[of L line_state blocks] by auto
  have "blocks = [] \<longrightarrow> cands = (if FILLED \<in> set line_state then [] else [replicate L EMPTY])"
    using c by (auto simp: line_candidates_def)
  then show ?thesis
    using c line_candidates_cells(1,3,4)[OF c] assms by auto
qed

theorem candidates_consistent_with_line_state_witness:
  "line_candidates 5 [1, 1] [UNKNOWN, EMPTY, FILLED, UNKNOWN, UNKNOWN] =
      Inr [[FILLED, EMPTY, FILLED, EMPTY, EMPTY], [EMPTY, EMPTY, FILLED, EMPTY, FILLED]] \<and>
   line_candidates 3 [] [UNKNOWN, EMPTY, UNKNOWN] = Inr [[EMPTY, EMPTY, EMPTY]] \<and>
   line_candidates 3 [] [UNKNOWN, FILLED, UNKNOWN] = Inr []"
proof -
  have ev: "line_candidates 5 [1, 1] [UNKNOWN, EMPTY, FILLED, UNKNOWN, UNKNOWN] =
      Inr [[FILLED, EMPTY, FILLED, EMPTY, EMPTY], [EMPTY, EMPTY, FILLED, EMPTY, FILLED]]"
    by code_simp
  from candidates_consistent_with_line_state[of "[UNKNOWN, EMPTY, UNKNOWN]" 3 "[]"]
  have a: "line_candidates 3 [] [UNKNOWN, EMPTY, UNKNOWN] = Inr [[EMPTY, EMPTY, EMPTY]]"
    by (auto simp: numeral_3_eq_3)
  from candidates_consistent_with_line_state[of "[UNKNOWN, FILLED, UNKNOWN]" 3 "[]"]
  have b: "line_candidates 3 [] [UNKNOWN, FILLED, UNKNOWN] = Inr []"
    by auto
  from candidates_consistent_with_line_state[of "[UNKNOWN, EMPTY, FILLED, UNKNOWN, UNKNOWN]" 5 "[1, 1]"]
  show ?thesis using ev a b by simp
qed



section \<open>The line reducer\<close>

text \<open>
  The inner loop of \<open>_intersect_candidates\<close>,
  \<^verbatim>\<open>for cand in candidates[1:]: if cand[i] != v: same = False; break\<close>.
\<close>

fun all_same :: "int list list \<Rightarrow> nat \<Rightarrow> int \<Rightarrow> exn + bool" where
  "all_same [] i v = Inr True"
| "all_same (cand # cands) i v =
     (case item cand i of Inl e \<Rightarrow> Inl e
      | Inr x \<Rightarrow> if x \<noteq> v then Inr False else all_same cands i v)"

definition intersect_candidates :: "int list list \<Rightarrow> exn + int list" where
  "intersect_candidates candidates =
     (case candidates of
        [] \<Rightarrow> Inr []
      | first # others \<Rightarrow>
          for_each
            (\<lambda>i result.
               case all_same others i (first ! i) of
                 Inl e \<Rightarrow> Inl e
               | Inr same \<Rightarrow> Inr (result[i := (if same then first ! i else UNKNOWN)]))
            [0..<length first] (replicate (length first) UNKNOWN))"

definition is_solved :: "int list list \<Rightarrow> bool" where
  "is_solved grid \<longleftrightarrow> (\<forall>row\<in>set grid. UNKNOWN \<notin> set row)"

definition count_fixed :: "int list list \<Rightarrow> nat" where
  "count_fixed grid = sum_list (map (\<lambda>row. length (filter (\<lambda>v. v \<noteq> UNKNOWN) row)) grid)"

section \<open>The propagation engine\<close>

record SolveStats =
  iterations :: nat
  nodes :: nat
  max_depth :: nat
  fixed_cells :: nat

definition SolveStats_init :: SolveStats where
  "SolveStats_init = \<lparr>iterations = 0, nodes = 0, max_depth = 0, fixed_cells = 0\<rparr>"

text \<open>
  \<open>stop_event\<close> is read through \<open>is_set()\<close> only. It is modelled by the answers it gives
  to the successive polls: \<open>[]\<close> is \<open>stop_event = None\<close>, or an event that is never set.
\<close>

definition check_cancel :: "bool list \<Rightarrow> exn + bool list" where
  "check_cancel polls =
     (case polls of [] \<Rightarrow> Inr [] | p # ps \<Rightarrow> if p then Inl Cancelled else Inr ps)"

text \<open>
  A grid is a list of rows. \<open>propagate\<close> and \<open>propagate_once\<close> write into the rows of
  their argument; the model returns the grid as the call leaves it, whether it returns
  or raises. This is state passing for a grid whose rows are distinct list objects.
\<close>

definition get_cell :: "int list list \<Rightarrow> nat \<Rightarrow> nat \<Rightarrow> exn + int" where
  "get_cell grid r c = (case item grid r of Inl e \<Rightarrow> Inl e | Inr row \<Rightarrow> item row c)"

definition set_cell :: "int list list \<Rightarrow> nat \<Rightarrow> nat \<Rightarrow> int \<Rightarrow> int list list" where
  "set_cell grid r c v = grid[r := (grid ! r)[c := v]]"

datatype flow = Normal | Contradiction | Raise exn

text \<open>
  The loop that writes an intersection back,
  \<^verbatim>\<open>if intersection[k] != UNKNOWN and grid[r][c] != intersection[k]: grid[r][c] = intersection[k]\<close>
  over the cells \<open>(r, c)\<close> of one line, \<open>k\<close> being the position in the line (\<open>c\<close> for a
  row, \<open>r\<close> for a column). \<open>mark\<close> is what the loop does to its change marker:
  \<open>changed = True\<close> in \<open>propagate\<close>, \<open>changed_count += 1\<close> in \<open>propagate_once\<close>. The
  write follows a successful read of the same cell, so it is in range.
\<close>

fun apply_line ::
  "('m \<Rightarrow> 'm) \<Rightarrow> int list \<Rightarrow> nat \<Rightarrow> (nat \<times> nat) list \<Rightarrow> int list list \<times> 'm \<Rightarrow> flow \<times> int list list \<times> 'm"
where
  "apply_line mark intersection k [] (grid, m) = (Normal, grid, m)"
| "apply_line mark intersection k ((r, c) # cells) (grid, m) =
     (case item intersection k of
        Inl e \<Rightarrow> (Raise e, grid, m)
      | Inr v \<Rightarrow>
          if v \<noteq> UNKNOWN then
            (case get_cell grid r c of
               Inl e \<Rightarrow> (Raise e, grid, m)
             | Inr x \<Rightarrow>
                 if x \<noteq> v then apply_line mark intersection (Suc k) cells (set_cell grid r c v, mark m)
                 else apply_line mark intersection (Suc k) cells (grid, m))
          else apply_line mark intersection (Suc k) cells (grid, m))"

text \<open>
  The reduction of one line: its clue and its state are read (either may raise), the
  generator runs on \<open>len\<close> cells, no candidate is a contradiction, and else the
  intersection is written back.
\<close>

definition reduce_line ::
  "('m \<Rightarrow> 'm) \<Rightarrow> nat \<Rightarrow> exn + int list \<Rightarrow> exn + nat list \<Rightarrow> (nat \<times> nat) list \<Rightarrow>
     int list list \<times> 'm \<Rightarrow> flow \<times> int list list \<times> 'm"
where
  "reduce_line mark len line_state blocks cells s =
     (case line_state of
        Inl e \<Rightarrow> (Raise e, s)
      | Inr ls \<Rightarrow>
     (case blocks of
        Inl e \<Rightarrow> (Raise e, s)
      | Inr bs \<Rightarrow>
     (case line_candidates len bs ls of
        Inl e \<Rightarrow> (Raise e, s)
      | Inr candidates \<Rightarrow>
          if candidates = [] then (Contradiction, s)
          else
            (case intersect_candidates candidates of
               Inl e \<Rightarrow> (Raise e, s)
             | Inr intersection \<Rightarrow> apply_line mark intersection 0 cells s))))"

text \<open>\<^verbatim>\<open>tuple(grid[r][c] for r in range(height))\<close>\<close>

fun column :: "int list list \<Rightarrow> nat \<Rightarrow> nat list \<Rightarrow> exn + int list" where
  "column grid c [] = Inr []"
| "column grid c (r # rs) =
     (case get_cell grid r c of
        Inl e \<Rightarrow> Inl e
      | Inr x \<Rightarrow> (case column grid c rs of Inl e \<Rightarrow> Inl e | Inr xs \<Rightarrow> Inr (x # xs)))"

fun reduce_rows ::
  "('m \<Rightarrow> 'm) \<Rightarrow> nat list list \<Rightarrow> nat \<Rightarrow> nat list \<Rightarrow> int list list \<times> 'm \<Rightarrow> flow \<times> int list list \<times> 'm"
where
  "reduce_rows mark row_clues width [] s = (Normal, s)"
| "reduce_rows mark row_clues width (r # rs) s =
     (case reduce_line mark width (item (fst s) r) (item row_clues r)
             (map (\<lambda>c. (r, c)) [0..<width]) s of
        (Normal, s') \<Rightarrow> reduce_rows mark row_clues width rs s'
      | other \<Rightarrow> other)"

fun reduce_cols ::
  "('m \<Rightarrow> 'm) \<Rightarrow> nat list list \<Rightarrow> nat \<Rightarrow> nat list \<Rightarrow> int list list \<times> 'm \<Rightarrow> flow \<times> int list list \<times> 'm"
where
  "reduce_cols mark col_clues height [] s = (Normal, s)"
| "reduce_cols mark col_clues height (c # cs) s =
     (case reduce_line mark height (column (fst s) c [0..<height]) (item col_clues c)
             (map (\<lambda>r. (r, c)) [0..<height]) s of
        (Normal, s') \<Rightarrow> reduce_cols mark col_clues height cs s'
      | other \<Rightarrow> other)"

text \<open>One pass: every row, then every column.\<close>

definition sweep ::
  "('m \<Rightarrow> 'm) \<Rightarrow> nat list list \<Rightarrow> nat list list \<Rightarrow> nat \<Rightarrow> nat \<Rightarrow> int list list \<times> 'm \<Rightarrow>
     flow \<times> int list list \<times> 'm"
where
  "sweep mark row_clues col_clues height width s =
     (case reduce_rows mark row_clues width [0..<height] s of
        (Normal, s') \<Rightarrow> reduce_cols mark col_clues height [0..<width] s'
      | other \<Rightarrow> other)"

definition propagate_once ::
  "int list list \<Rightarrow> nat list list \<Rightarrow> nat list list \<Rightarrow> (exn + bool \<times> nat) \<times> int list list"
where
  "propagate_once grid row_clues col_clues =
     (case item grid 0 of
        Inl e \<Rightarrow> (Inl e, grid)
      | Inr row0 \<Rightarrow>
          (case sweep Suc row_clues col_clues (length grid) (length row0) (grid, 0) of
             (Raise e, grid', changed_count) \<Rightarrow> (Inl e, grid')
           | (Contradiction, grid', changed_count) \<Rightarrow> (Inr (False, changed_count), grid')
           | (Normal, grid', changed_count) \<Rightarrow> (Inr (True, changed_count), grid')))"


subsection \<open>What a pass does to the grid\<close>

definition determined :: "int \<Rightarrow> bool" where
  "determined v \<longleftrightarrow> v = EMPTY \<or> v = FILLED"

definition count_where :: "(int \<Rightarrow> bool) \<Rightarrow> int list list \<Rightarrow> nat" where
  "count_where P grid =
     sum_list (map (\<lambda>row. sum_list (map (\<lambda>v. if P v then 1 else 0) row)) grid)"

definition undetermined :: "int list list \<Rightarrow> nat" where
  "undetermined grid = count_where (\<lambda>v. \<not> determined v) grid"

definition unknown_count :: "int list list \<Rightarrow> nat" where
  "unknown_count grid = count_where (\<lambda>v. v = UNKNOWN) grid"

text \<open>
  \<open>determines g g'\<close>: the grid \<open>g'\<close> comes from \<open>g\<close> by writing \<open>EMPTY\<close> or \<open>FILLED\<close>
  into cells that held neither.
\<close>

inductive determines :: "int list list \<Rightarrow> int list list \<Rightarrow> bool" where
  same: "determines g g"
| put: "determines g g' \<Longrightarrow> r < length g' \<Longrightarrow> c < length (g' ! r) \<Longrightarrow>
          \<not> determined (g' ! r ! c) \<Longrightarrow> determined v \<Longrightarrow> determines g (set_cell g' r c v)"

lemma determines_trans: "determines g2 g3 \<Longrightarrow> determines g1 g2 \<Longrightarrow> determines g1 g3"
  by (induction rule: determines.induct) (auto intro: determines.intros)

lemma sum_list_map_update:
  fixes f :: "'a \<Rightarrow> nat"
  shows "i < length xs \<Longrightarrow>
    sum_list (map f (xs[i := y])) + f (xs ! i) = sum_list (map f xs) + f y"
proof (induction xs arbitrary: i)
  case Nil
  then show ?case by simp
next
  case (Cons x xs)
  then show ?case by (cases i) auto
qed

lemma count_where_set_cell:
  assumes "r < length g" "c < length (g ! r)"
  shows "count_where P (set_cell g r c v) + (if P (g ! r ! c) then 1 else 0)
           = count_where P g + (if P v then 1 else 0)"
proof -
  let ?f = "\<lambda>row. sum_list (map (\<lambda>v. if P v then 1 else 0) row) :: nat"
  have row: "?f ((g ! r)[c := v]) + (if P (g ! r ! c) then 1 else 0)
               = ?f (g ! r) + (if P v then 1 else 0)"
    using sum_list_map_update[OF assms(2), of "\<lambda>v. if P v then 1 else 0" v] by simp
  have "sum_list (map ?f (g[r := (g ! r)[c := v]])) + ?f (g ! r)
          = sum_list (map ?f g) + ?f ((g ! r)[c := v])"
    by (rule sum_list_map_update[OF assms(1)])
  with row show ?thesis unfolding count_where_def set_cell_def by linarith
qed

lemma determines_shape:
  "determines g g' \<Longrightarrow> length g' = length g \<and> (\<forall>r. length (g' ! r) = length (g ! r))"
  by (induction rule: determines.induct) (auto simp: set_cell_def nth_list_update)

lemma determines_keeps:
  "determines g g' \<Longrightarrow> r < length g \<Longrightarrow> c < length (g ! r) \<Longrightarrow> determined (g ! r ! c) \<Longrightarrow>
     g' ! r ! c = g ! r ! c"
proof (induction rule: determines.induct)
  case (same g)
  then show ?case by simp
next
  case (put g g' r' c' v)
  then show ?case
    using determines_shape[OF put.hyps(1)]
    by (auto simp: set_cell_def nth_list_update)
qed

lemma determines_unknown:
  "determines g g' \<Longrightarrow> unknown_count g' \<le> unknown_count g"
proof (induction rule: determines.induct)
  case (same g)
  then show ?case by simp
next
  case (put g g' r c v)
  from count_where_set_cell[OF put.hyps(2,3), of "\<lambda>v. v = UNKNOWN" v] put.hyps(5)
  have "unknown_count (set_cell g' r c v) \<le> unknown_count g'"
    by (auto simp: unknown_count_def determined_def split: if_splits)
  with put.IH show ?case by simp
qed

lemma write_undetermined:
  assumes "r < length g" "c < length (g ! r)" "\<not> determined (g ! r ! c)" "determined v"
  shows "Suc (undetermined (set_cell g r c v)) = undetermined g"
  using count_where_set_cell[OF assms(1,2), of "\<lambda>v. \<not> determined v" v] assms(3,4)
  by (simp add: undetermined_def)

lemma get_cell_Inr:
  "get_cell g r c = Inr x \<longleftrightarrow> r < length g \<and> c < length (g ! r) \<and> x = g ! r ! c"
  by (auto simp: get_cell_def item_def)

lemma get_cell_set_cell_other:
  "(r', c') \<noteq> (r, c) \<Longrightarrow> get_cell (set_cell g r c v) r' c' = get_cell g r' c'"
  by (cases "r' = r") (auto simp: get_cell_def set_cell_def item_def nth_list_update)

text \<open>
  The intersection is sound for a line when each of its determined values is \<open>EMPTY\<close>
  or \<open>FILLED\<close> and agrees with the cell it is meant for, if that is determined.
\<close>

definition sound_at :: "int list \<Rightarrow> nat \<Rightarrow> int list list \<Rightarrow> nat \<times> nat \<Rightarrow> bool" where
  "sound_at intersection k g rc \<longleftrightarrow>
     (\<forall>v. item intersection k = Inr v \<longrightarrow> v \<noteq> UNKNOWN \<longrightarrow>
        determined v \<and>
        (\<forall>x. get_cell g (fst rc) (snd rc) = Inr x \<longrightarrow> determined x \<longrightarrow> x = v))"

lemma apply_line_determines:
  assumes "apply_line mark intersection k cells (g, m) = (fl, g', m')"
    and "distinct cells"
    and "\<forall>j<length cells. sound_at intersection (k + j) g (cells ! j)"
  shows "determines g g' \<and> (\<exists>n. m' = (mark ^^ n) m \<and> undetermined g' + n = undetermined g)"
  using assms
proof (induction cells arbitrary: k g m)
  case Nil
  then show ?case by (auto intro: determines.same exI[of _ 0])
next
  case (Cons rc cells)
  obtain r c where rc: "rc = (r, c)" by (cases rc)
  have tail_sound: "\<forall>j<length cells. sound_at intersection (Suc k + j) g (cells ! j)"
  proof (intro allI impI)
    fix j assume "j < length cells"
    then show "sound_at intersection (Suc k + j) g (cells ! j)"
      using Cons.prems(3)[rule_format, of "Suc j"] by simp
  qed
  have dist: "distinct cells" and notin: "(r, c) \<notin> set cells"
    using Cons.prems(2) rc by auto
  show ?case
  proof (cases "\<exists>v x. item intersection k = Inr v \<and> v \<noteq> UNKNOWN \<and>
                  get_cell g r c = Inr x \<and> x \<noteq> v")
    case True
    then obtain v x where v: "item intersection k = Inr v" "v \<noteq> UNKNOWN"
      and x: "get_cell g r c = Inr x" "x \<noteq> v" by auto
    let ?g1 = "set_cell g r c v"
    from Cons.prems(3)[rule_format, of 0] v x rc
    have dv: "determined v" and nx: "\<not> determined x"
      by (auto simp: sound_at_def)
    from x have inr: "r < length g" "c < length (g ! r)" "x = g ! r ! c"
      by (auto simp: get_cell_Inr)
    have run: "apply_line mark intersection (Suc k) cells (?g1, mark m) = (fl, g', m')"
      using Cons.prems(1) rc v x by simp
    have sound1: "\<forall>j<length cells. sound_at intersection (Suc k + j) ?g1 (cells ! j)"
    proof (intro allI impI)
      fix j assume j: "j < length cells"
      then have "cells ! j \<noteq> (r, c)" using notin by (metis nth_mem)
      then have "get_cell ?g1 (fst (cells ! j)) (snd (cells ! j))
                 = get_cell g (fst (cells ! j)) (snd (cells ! j))"
        by (intro get_cell_set_cell_other) (cases "cells ! j", auto)
      then show "sound_at intersection (Suc k + j) ?g1 (cells ! j)"
        using tail_sound j by (simp add: sound_at_def)
    qed
    from Cons.IH[OF run dist sound1] obtain n where
      d: "determines ?g1 g'" and n: "m' = (mark ^^ n) (mark m)"
      "undetermined g' + n = undetermined ?g1"
      by auto
    have "determines g ?g1"
      using inr nx dv by (intro determines.put determines.same) auto
    then have "determines g g'" using d determines_trans by blast
    moreover have "m' = (mark ^^ Suc n) m" using n(1) by (simp add: funpow_swap1)
    moreover have "undetermined g' + Suc n = undetermined g"
      using n(2) write_undetermined[OF inr(1,2) _ dv] nx inr(3) by simp
    ultimately show ?thesis by blast
  next
    case False
    show ?thesis
    proof (cases "\<exists>e. (item intersection k = Inl e) \<or>
           (\<exists>v. item intersection k = Inr v \<and> v \<noteq> UNKNOWN \<and> get_cell g r c = Inl e)")
      case True
      then have "g' = g \<and> m' = m"
        using Cons.prems(1) rc by (auto split: sum.splits if_splits)
      then show ?thesis by (auto intro: determines.same exI[of _ 0])
    next
      case F2: False
      then have run: "apply_line mark intersection (Suc k) cells (g, m) = (fl, g', m')"
        using Cons.prems(1) rc False by (auto split: sum.splits if_splits)
      from Cons.IH[OF run dist tail_sound] show ?thesis .
    qed
  qed
qed


lemma for_each_invariant:
  assumes "I s"
    and "\<And>x s s'. x \<in> set xs \<Longrightarrow> I s \<Longrightarrow> f x s = Inr s' \<Longrightarrow> I s'"
    and "for_each f xs s = Inr s'"
  shows "I s'"
  using assms
proof (induction xs arbitrary: s)
  case Nil
  then show ?case by simp
next
  case (Cons x xs)
  from Cons.prems(3) obtain s1 where s1: "f x s = Inr s1" and rest: "for_each f xs s1 = Inr s'"
    by (auto split: sum.splits)
  have "I s1" using Cons.prems(1,2) s1 by auto
  then show ?case using Cons.IH[OF _ _ rest] Cons.prems(2) by auto
qed

lemma intersect_candidates_first:
  assumes "intersect_candidates (first # others) = Inr intersection"
  shows "length intersection = length first"
    and "i < length first \<Longrightarrow> intersection ! i = first ! i \<or> intersection ! i = UNKNOWN"
proof -
  let ?I = "\<lambda>result. length result = length first \<and>
              (\<forall>i<length first. result ! i = first ! i \<or> result ! i = UNKNOWN)"
  have "?I intersection"
  proof (rule for_each_invariant[where I = ?I])
    show "?I (replicate (length first) UNKNOWN)" by simp
    show "for_each
            (\<lambda>i result.
               case all_same others i (first ! i) of
                 Inl e \<Rightarrow> Inl e
               | Inr same \<Rightarrow> Inr (result[i := (if same then first ! i else UNKNOWN)]))
            [0..<length first] (replicate (length first) UNKNOWN) = Inr intersection"
      using assms by (simp add: intersect_candidates_def)
  next
    fix x s s'
    assume "x \<in> set [0..<length first]" "?I s"
      "(case all_same others x (first ! x) of
                 Inl e \<Rightarrow> Inl e
               | Inr same \<Rightarrow> Inr (s[x := (if same then first ! x else UNKNOWN)])) = Inr s'"
    then show "?I s'"
      by (auto simp: nth_list_update split: sum.splits) blast+
  qed
  then show "length intersection = length first"
    and "i < length first \<Longrightarrow> intersection ! i = first ! i \<or> intersection ! i = UNKNOWN"
    by auto
qed

lemma reduce_line_determines:
  assumes run: "reduce_line mark len line_state blocks cells (g, m) = (fl, g', m')"
    and dist: "distinct cells" and len: "length cells = len"
    and reads: "\<And>ls j x. line_state = Inr ls \<Longrightarrow> j < len \<Longrightarrow>
                  get_cell g (fst (cells ! j)) (snd (cells ! j)) = Inr x \<Longrightarrow>
                  j < length ls \<and> x = ls ! j"
  shows "determines g g' \<and> (\<exists>n. m' = (mark ^^ n) m \<and> undetermined g' + n = undetermined g)"
proof (cases "\<exists>ls bs cands intersection. line_state = Inr ls \<and> blocks = Inr bs \<and>
                line_candidates len bs ls = Inr cands \<and> cands \<noteq> [] \<and>
                intersect_candidates cands = Inr intersection")
  case False
  then have "g' = g \<and> m' = m"
    using run by (auto simp: reduce_line_def split: sum.splits if_splits)
  then show ?thesis by (auto intro: determines.same exI[of _ 0])
next
  case True
  then obtain ls bs cands intersection where ls: "line_state = Inr ls" and "blocks = Inr bs"
    and lc: "line_candidates len bs ls = Inr cands" and ne: "cands \<noteq> []"
    and ic: "intersect_candidates cands = Inr intersection"
    by auto
  then have ap: "apply_line mark intersection 0 cells (g, m) = (fl, g', m')"
    using run by (simp add: reduce_line_def)
  from ne obtain first others where cands: "cands = first # others" by (cases cands) auto
  have first: "first \<in> set cands" using cands by simp
  have lf: "length first = len" using line_candidates_cells(1)[OF lc first] .
  have "\<forall>j<length cells. sound_at intersection (0 + j) g (cells ! j)"
  proof (intro allI impI)
    fix j assume j: "j < length cells"
    then have jl: "j < len" using len by simp
    have sel: "intersection ! j = first ! j \<or> intersection ! j = UNKNOWN"
      and li: "length intersection = len"
      using intersect_candidates_first[OF ic[unfolded cands]] jl lf by auto
    have d: "determined (first ! j)"
      using line_candidates_cells(2)[OF lc first jl] by (simp add: determined_def)
    have agree: "x = first ! j"
      if "get_cell g (fst (cells ! j)) (snd (cells ! j)) = Inr x" "determined x" for x
    proof -
      from reads[OF ls jl that(1)] have "j < length ls" "x = ls ! j" by auto
      then show ?thesis
        using line_candidates_cells(3,4)[OF lc first jl] that(2)
        by (auto simp: determined_def)
    qed
    show "sound_at intersection (0 + j) g (cells ! j)"
      using sel d agree li jl by (auto simp: sound_at_def item_def)
  qed
  from apply_line_determines[OF ap dist this] show ?thesis .
qed

lemma column_Inr:
  "column g c rs = Inr ls \<Longrightarrow>
     length ls = length rs \<and> (\<forall>j<length rs. get_cell g (rs ! j) c = Inr (ls ! j))"
proof (induction rs arbitrary: ls)
  case Nil
  then show ?case by simp
next
  case (Cons r rs)
  then obtain x xs where "get_cell g r c = Inr x" "column g c rs = Inr xs" "ls = x # xs"
    by (auto split: sum.splits)
  with Cons.IH[of xs] show ?case by (auto simp: nth_Cons split: nat.splits)
qed

lemma marks_compose:
  assumes "m1 = (mark ^^ n1) m" "m2 = (mark ^^ n2) m1"
    "undetermined g1 + n1 = undetermined g" "undetermined g2 + n2 = undetermined g1"
  shows "\<exists>n. m2 = (mark ^^ n) m \<and> undetermined g2 + n = undetermined g"
  using assms by (intro exI[of _ "n2 + n1"]) (simp add: funpow_add)

lemma reduce_rows_determines:
  assumes "reduce_rows mark row_clues width rs (g, m) = (fl, g', m')"
  shows "determines g g' \<and> (\<exists>n. m' = (mark ^^ n) m \<and> undetermined g' + n = undetermined g)"
  using assms
proof (induction rs arbitrary: g m)
  case Nil
  then show ?case by (auto intro: determines.same exI[of _ 0])
next
  case (Cons r rs)
  obtain fl1 g1 m1 where one:
    "reduce_line mark width (item g r) (item row_clues r) (map (\<lambda>c. (r, c)) [0..<width]) (g, m)
       = (fl1, g1, m1)"
    by (metis prod_cases3)
  have d1: "determines g g1 \<and> (\<exists>n. m1 = (mark ^^ n) m \<and> undetermined g1 + n = undetermined g)"
    by (rule reduce_line_determines[OF one])
       (auto simp: distinct_map inj_on_def item_def get_cell_Inr split: if_splits)
  show ?case
  proof (cases "fl1 = Normal")
    case True
    then have "reduce_rows mark row_clues width rs (g1, m1) = (fl, g', m')"
      using Cons.prems one by simp
    from Cons.IH[OF this] d1 show ?thesis
      by (auto intro: determines_trans marks_compose)
  next
    case False
    then have "(fl, g', m') = (fl1, g1, m1)"
      using Cons.prems one by (cases fl1) auto
    with d1 show ?thesis by simp
  qed
qed

lemma reduce_cols_determines:
  assumes "reduce_cols mark col_clues height cs (g, m) = (fl, g', m')"
  shows "determines g g' \<and> (\<exists>n. m' = (mark ^^ n) m \<and> undetermined g' + n = undetermined g)"
  using assms
proof (induction cs arbitrary: g m)
  case Nil
  then show ?case by (auto intro: determines.same exI[of _ 0])
next
  case (Cons c cs)
  obtain fl1 g1 m1 where one:
    "reduce_line mark height (column g c [0..<height]) (item col_clues c)
       (map (\<lambda>r. (r, c)) [0..<height]) (g, m) = (fl1, g1, m1)"
    by (metis prod_cases3)
  have d1: "determines g g1 \<and> (\<exists>n. m1 = (mark ^^ n) m \<and> undetermined g1 + n = undetermined g)"
  proof (rule reduce_line_determines[OF one])
    fix ls j x
    assume "column g c [0..<height] = Inr ls" "j < height"
      "get_cell g (fst (map (\<lambda>r. (r, c)) [0..<height] ! j))
         (snd (map (\<lambda>r. (r, c)) [0..<height] ! j)) = Inr x"
    then show "j < length ls \<and> x = ls ! j"
      using column_Inr[of g c "[0..<height]" ls] by auto
  qed (auto simp: distinct_map inj_on_def)
  show ?case
  proof (cases "fl1 = Normal")
    case True
    then have "reduce_cols mark col_clues height cs (g1, m1) = (fl, g', m')"
      using Cons.prems one by simp
    from Cons.IH[OF this] d1 show ?thesis
      by (auto intro: determines_trans marks_compose)
  next
    case False
    then have "(fl, g', m') = (fl1, g1, m1)"
      using Cons.prems one by (cases fl1) auto
    with d1 show ?thesis by simp
  qed
qed

lemma sweep_determines:
  assumes "sweep mark row_clues col_clues height width (g, m) = (fl, g', m')"
  shows "determines g g' \<and> (\<exists>n. m' = (mark ^^ n) m \<and> undetermined g' + n = undetermined g)"
proof -
  obtain fl1 g1 m1 where rows:
    "reduce_rows mark row_clues width [0..<height] (g, m) = (fl1, g1, m1)"
    by (metis prod_cases3)
  note d1 = reduce_rows_determines[OF rows]
  show ?thesis
  proof (cases "fl1 = Normal")
    case True
    then have "reduce_cols mark col_clues height [0..<width] (g1, m1) = (fl, g', m')"
      using assms rows by (simp add: sweep_def)
    from reduce_cols_determines[OF this] d1 show ?thesis
      by (auto intro: determines_trans marks_compose)
  next
    case False
    then have "(fl, g', m') = (fl1, g1, m1)"
      using assms rows by (cases fl1) (auto simp: sweep_def)
    with d1 show ?thesis by simp
  qed
qed


lemma changed_flag: "((\<lambda>_. True) ^^ n) False \<longleftrightarrow> 0 < n"
  by (cases n) simp_all

lemma determines_undetermined:
  "determines g g' \<Longrightarrow>
     undetermined g' \<le> undetermined g \<and> (undetermined g' = undetermined g \<longrightarrow> g' = g)"
proof (induction rule: determines.induct)
  case (same g)
  then show ?case by simp
next
  case (put g g' r c v)
  from write_undetermined[OF put.hyps(2-5)] put.IH show ?case by auto
qed

lemma sweep_changed:
  assumes "sweep (\<lambda>_. True) row_clues col_clues height width (g, False) = (fl, g', changed)"
  shows "changed \<Longrightarrow> undetermined g' < undetermined g" and "\<not> changed \<Longrightarrow> g' = g"
proof -
  from sweep_determines[OF assms] obtain n where
    n: "changed = ((\<lambda>_. True) ^^ n) False" "undetermined g' + n = undetermined g"
    and d: "determines g g'"
    by auto
  show "changed \<Longrightarrow> undetermined g' < undetermined g"
    using n by (simp add: changed_flag)
  assume "\<not> changed"
  then have "undetermined g' = undetermined g" using n by (simp add: changed_flag)
  with determines_undetermined[OF d] show "g' = g" by simp
qed

text \<open>
  The loop \<^verbatim>\<open>while changed:\<close> of \<open>propagate\<close>. Each pass that changes a cell
  determines one more cell, which is why the loop ends.
\<close>

function propagate_loop ::
  "nat list list \<Rightarrow> nat list list \<Rightarrow> nat \<Rightarrow> nat \<Rightarrow> SolveStats \<Rightarrow> int list list \<Rightarrow> bool list \<Rightarrow>
     (exn + bool \<times> SolveStats) \<times> int list list \<times> bool list"
where
  "propagate_loop row_clues col_clues height width stats grid polls =
     (case check_cancel polls of
        Inl e \<Rightarrow> (Inl e, grid, polls)
      | Inr polls' \<Rightarrow>
          (case sweep (\<lambda>_. True) row_clues col_clues height width (grid, False) of
             (Raise e, grid', changed) \<Rightarrow> (Inl e, grid', polls')
           | (Contradiction, grid', changed) \<Rightarrow>
               (Inr (False, stats\<lparr>iterations := iterations stats + 1\<rparr>), grid', polls')
           | (Normal, grid', changed) \<Rightarrow>
               if changed then
                 propagate_loop row_clues col_clues height width
                   (stats\<lparr>iterations := iterations stats + 1, fixed_cells := count_fixed grid'\<rparr>)
                   grid' polls'
               else
                 (Inr (True, stats\<lparr>iterations := iterations stats + 1,
                                    fixed_cells := count_fixed grid'\<rparr>), grid', polls')))"
  by pat_completeness auto
termination
proof (relation "measure (\<lambda>(row_clues, col_clues, height, width, stats, grid, polls).
                    undetermined grid)", goal_cases)
  case 1
  show ?case by simp
next
  case 2
  then show ?case by simp (metis sweep_changed(1))
qed

declare propagate_loop.simps [simp del]

definition propagate ::
  "int list list \<Rightarrow> nat list list \<Rightarrow> nat list list \<Rightarrow> bool list \<Rightarrow>
     (exn + bool \<times> SolveStats) \<times> int list list \<times> bool list"
where
  "propagate grid row_clues col_clues polls =
     (case item grid 0 of
        Inl e \<Rightarrow> (Inl e, grid, polls)
      | Inr row0 \<Rightarrow>
          propagate_loop row_clues col_clues (length grid) (length row0) SolveStats_init grid polls)"


lemma propagate_loop_determines:
  "propagate_loop row_clues col_clues height width stats grid polls = (res, grid', polls') \<Longrightarrow>
     determines grid grid'"
proof (induction row_clues col_clues height width stats grid polls
       rule: propagate_loop.induct)
  case (1 row_clues col_clues height width stats grid polls)
  show ?case
  proof (cases "check_cancel polls")
    case (Inl e)
    then have "grid' = grid" using "1.prems" by (subst (asm) propagate_loop.simps) simp
    then show ?thesis by (simp add: determines.same)
  next
    case (Inr ps)
    obtain fl g1 changed where sw:
      "sweep (\<lambda>_. True) row_clues col_clues height width (grid, False) = (fl, g1, changed)"
      by (metis prod_cases3)
    have d1: "determines grid g1" using sweep_determines[OF sw] by simp
    show ?thesis
    proof (cases "fl = Normal \<and> changed")
      case True
      then have "propagate_loop row_clues col_clues height width
                   (stats\<lparr>iterations := iterations stats + 1, fixed_cells := count_fixed g1\<rparr>)
                   g1 ps = (res, grid', polls')"
        using "1.prems" Inr sw by (subst (asm) propagate_loop.simps) simp
      from "1.IH"[OF Inr sw[symmetric] _ refl _ this] True have "determines g1 grid'"
        by simp
      with d1 show ?thesis using determines_trans by blast
    next
      case False
      then have "grid' = g1"
        using "1.prems" Inr sw
        by (subst (asm) propagate_loop.simps) (cases fl; auto)
      with d1 show ?thesis by simp
    qed
  qed
qed

lemma propagate_determines:
  "propagate grid row_clues col_clues polls = (res, grid', polls') \<Longrightarrow> determines grid grid'"
  by (auto simp: propagate_def determines.same split: sum.splits
           dest: propagate_loop_determines)


lemma propagate_loop_fixpoint:
  "propagate_loop row_clues col_clues height width stats grid polls
     = (Inr (True, stats'), grid', polls') \<Longrightarrow>
   sweep (\<lambda>_. True) row_clues col_clues height width (grid', False) = (Normal, grid', False)"
proof (induction row_clues col_clues height width stats grid polls
       rule: propagate_loop.induct)
  case (1 row_clues col_clues height width stats grid polls)
  from "1.prems" obtain ps where ps: "check_cancel polls = Inr ps"
    by (subst (asm) propagate_loop.simps) (auto split: sum.splits)
  obtain fl g1 changed where sw:
    "sweep (\<lambda>_. True) row_clues col_clues height width (grid, False) = (fl, g1, changed)"
    by (metis prod_cases3)
  have fl: "fl = Normal"
    using "1.prems" ps sw by (subst (asm) propagate_loop.simps) (cases fl; auto)
  show ?case
  proof (cases changed)
    case True
    then have "propagate_loop row_clues col_clues height width
                 (stats\<lparr>iterations := iterations stats + 1, fixed_cells := count_fixed g1\<rparr>)
                 g1 ps = (Inr (True, stats'), grid', polls')"
      using "1.prems" ps sw fl by (subst (asm) propagate_loop.simps) simp
    from "1.IH"[OF ps sw[symmetric] _ refl _ this] fl True show ?thesis by simp
  next
    case False
    then have "grid' = g1"
      using "1.prems" ps sw fl by (subst (asm) propagate_loop.simps) simp
    moreover have "g1 = grid" using sweep_changed(2)[OF sw False] .
    ultimately show ?thesis using sw fl False by simp
  qed
qed

text \<open>
  C4 (amended). When a call of \<open>propagate\<close> has returned success, a second call on the
  grid it left, with the same clues and not cancelled at its first poll, returns success
  too and leaves every cell as it is. The hypothesis is needed: after a failed first call
  a second call can determine further cells (\<open>propagate_twice_counterexample\<close>).
\<close>

theorem propagate_idempotent_after_success:
  assumes first: "propagate grid row_clues col_clues polls = (Inr (True, stats), grid', polls')"
    and go: "check_cancel polls2 = Inr polls2'"
  shows "\<exists>stats'. propagate grid' row_clues col_clues polls2 = (Inr (True, stats'), grid', polls2')"
proof -
  from first obtain row0 where row0: "item grid 0 = Inr row0"
    and loop: "propagate_loop row_clues col_clues (length grid) (length row0) SolveStats_init
                 grid polls = (Inr (True, stats), grid', polls')"
    by (auto simp: propagate_def split: sum.splits)
  have shape: "length grid' = length grid" "length (grid' ! 0) = length (grid ! 0)"
    using determines_shape[OF propagate_loop_determines[OF loop]] by auto
  have row0': "item grid' 0 = Inr (grid' ! 0)" "length (grid' ! 0) = length row0"
    using row0 shape by (auto simp: item_def split: if_splits)
  have fp: "sweep (\<lambda>_. True) row_clues col_clues (length grid') (length (grid' ! 0))
               (grid', False) = (Normal, grid', False)"
    using propagate_loop_fixpoint[OF loop] shape row0'(2) by simp
  show ?thesis
    unfolding propagate_def row0'(1)
    by (subst propagate_loop.simps) (simp add: go fp)
qed


definition valid_cells :: "int list list \<Rightarrow> bool" where
  "valid_cells grid \<longleftrightarrow> (\<forall>row\<in>set grid. \<forall>v\<in>set row. v = UNKNOWN \<or> v = EMPTY \<or> v = FILLED)"

lemma valid_cells_nth:
  "valid_cells g \<longleftrightarrow>
     (\<forall>r<length g. \<forall>c<length (g ! r). g ! r ! c = UNKNOWN \<or> g ! r ! c = EMPTY \<or> g ! r ! c = FILLED)"
  unfolding valid_cells_def by (metis in_set_conv_nth)

lemma determines_valid: "determines g g' \<Longrightarrow> valid_cells g \<Longrightarrow> valid_cells g'"
proof (induction rule: determines.induct)
  case (same g)
  then show ?case by simp
next
  case (put g g' r c v)
  then have v: "valid_cells g'" by simp
  show ?case
    unfolding valid_cells_nth
  proof (intro allI impI)
    fix r' c'
    assume "r' < length (set_cell g' r c v)" "c' < length (set_cell g' r c v ! r')"
    then show "set_cell g' r c v ! r' ! c' = UNKNOWN \<or> set_cell g' r c v ! r' ! c' = EMPTY \<or>
               set_cell g' r c v ! r' ! c' = FILLED"
      using v[unfolded valid_cells_nth] put.hyps(5)
      by (cases "r' = r"; cases "c' = c")
         (auto simp: set_cell_def nth_list_update determined_def)
  qed
qed

text \<open>
  C3. A grid holds only \<open>UNKNOWN\<close>, \<open>EMPTY\<close> and \<open>FILLED\<close>. Then a cell that is not
  \<open>UNKNOWN\<close> before a pass of \<open>propagate\<close> holds the same value after the pass, however
  the pass ends, the grid after the pass again holds only the three values, so that the
  same is true of the next pass, and the cell holds the same value when \<open>propagate\<close> as a
  whole is left.
\<close>

theorem propagation_monotone:
  assumes valid: "valid_cells grid"
    and cell: "r < length grid" "c < length (grid ! r)" "grid ! r ! c \<noteq> UNKNOWN"
  shows "fst (snd (sweep (\<lambda>_. True) row_clues col_clues height width (grid, False))) ! r ! c
           = grid ! r ! c \<and>
         valid_cells (fst (snd (sweep (\<lambda>_. True) row_clues col_clues height width (grid, False)))) \<and>
         fst (snd (propagate grid row_clues col_clues polls)) ! r ! c = grid ! r ! c"
proof -
  have known: "determined (grid ! r ! c)"
    using valid cell by (auto simp: valid_cells_nth determined_def)
  obtain fl g1 ch where sw:
    "sweep (\<lambda>_. True) row_clues col_clues height width (grid, False) = (fl, g1, ch)"
    by (metis prod_cases3)
  obtain res g2 ps where pr: "propagate grid row_clues col_clues polls = (res, g2, ps)"
    by (metis prod_cases3)
  have d1: "determines grid g1" using sweep_determines[OF sw] by simp
  have d2: "determines grid g2" using propagate_determines[OF pr] .
  show ?thesis
    using determines_keeps[OF d1 cell(1,2) known] determines_keeps[OF d2 cell(1,2) known]
      determines_valid[OF d1 valid] sw pr
    by simp
qed

theorem propagation_monotone_witness:
  "fst (snd (sweep (\<lambda>_. True) [[3], [1]] [[1], [2], [1]] 2 3
       ([[UNKNOWN, FILLED, UNKNOWN], [UNKNOWN, UNKNOWN, EMPTY]], False))) ! 1 ! 2 = EMPTY \<and>
   fst (snd (propagate [[UNKNOWN, FILLED, UNKNOWN], [UNKNOWN, UNKNOWN, EMPTY]]
       [[3], [1]] [[1], [2], [1]] [])) ! 1 ! 2 = EMPTY"
proof -
  let ?g = "[[UNKNOWN, FILLED, UNKNOWN], [UNKNOWN, UNKNOWN, EMPTY]]"
  have v: "valid_cells ?g" by (simp add: valid_cells_def)
  have c: "1 < length ?g" "2 < length (?g ! 1)" "?g ! 1 ! 2 \<noteq> UNKNOWN" by simp_all
  from propagation_monotone[OF v c, of "[[3], [1]]" "[[1], [2], [1]]" 2 3 "[]"]
  show ?thesis by simp
qed

subsection \<open>Where a failed pass stops\<close>

text \<open>
  A line has no candidate: its state and its clue are read, and the generator returns
  the empty list.
\<close>

definition no_candidates :: "nat \<Rightarrow> exn + int list \<Rightarrow> exn + nat list \<Rightarrow> bool" where
  "no_candidates len line_state blocks =
     (case line_state of
        Inl e \<Rightarrow> False
      | Inr ls \<Rightarrow>
          (case blocks of
             Inl e \<Rightarrow> False
           | Inr bs \<Rightarrow> line_candidates len bs ls = Inr []))"

text \<open>One full pass of \<open>propagate\<close> over the grid.\<close>

definition full_pass :: "nat list list \<Rightarrow> nat list list \<Rightarrow> nat \<Rightarrow> nat \<Rightarrow> int list list \<Rightarrow> int list list"
where
  "full_pass rc cc h w g = fst (snd (sweep (\<lambda>_. True) rc cc h w (g, False)))"

lemma apply_line_flow:
  "fst (apply_line mark intersection k cells s) \<noteq> Contradiction"
proof (induction cells arbitrary: k s)
  case Nil
  then show ?case by (cases s) simp
next
  case (Cons rc cells)
  obtain r c where rc: "rc = (r, c)" by (cases rc)
  obtain g m where s: "s = (g, m)" by (cases s)
  show ?case unfolding rc s
    using Cons.IH by (simp split: sum.splits)
qed

lemma reduce_line_contradiction:
  "reduce_line mark len line_state blocks cells s = (Contradiction, s') \<longleftrightarrow>
     no_candidates len line_state blocks \<and> s' = s"
proof -
  have "apply_line mark intersection 0 cells s \<noteq> (Contradiction, s')" for intersection
    using apply_line_flow[of mark intersection 0 cells s] by auto
  then show ?thesis
    by (auto simp: reduce_line_def no_candidates_def split: sum.splits)
qed

lemma upt_split:
  assumes "[0..<n] = pre @ r # post"
  shows "pre = [0..<r] \<and> r < n"
proof -
  have len: "length pre < n" using arg_cong[OF assms, of length] by simp
  have "[0..<n] ! length pre = r" using assms by simp
  then have r: "r = length pre" using len by simp
  have "take (length pre) [0..<n] = pre" using assms by simp
  then have "pre = [0..<length pre]" using len by (simp add: take_upt)
  with r len show ?thesis by simp
qed

lemma reduce_rows_contradiction:
  assumes "reduce_rows mark rc w rs s = (Contradiction, s')"
  shows "\<exists>pre r post. rs = pre @ r # post \<and> reduce_rows mark rc w pre s = (Normal, s') \<and>
           no_candidates w (item (fst s') r) (item rc r)"
  using assms
proof (induction rs arbitrary: s)
  case Nil
  then show ?case by simp
next
  case (Cons r0 rs)
  obtain fl1 s1 where one:
    "reduce_line mark w (item (fst s) r0) (item rc r0) (map (\<lambda>c. (r0, c)) [0..<w]) s = (fl1, s1)"
    by (cases "reduce_line mark w (item (fst s) r0) (item rc r0) (map (\<lambda>c. (r0, c)) [0..<w]) s")
  show ?case
  proof (cases fl1)
    case Normal
    with Cons.prems one have "reduce_rows mark rc w rs s1 = (Contradiction, s')" by simp
    from Cons.IH[OF this] obtain pre r post where
      p: "rs = pre @ r # post" "reduce_rows mark rc w pre s1 = (Normal, s')"
         "no_candidates w (item (fst s') r) (item rc r)" by blast
    have "reduce_rows mark rc w (r0 # pre) s = (Normal, s')" using one Normal p(2) by simp
    with p(1,3) show ?thesis by (intro exI[of _ "r0 # pre"] exI[of _ r] exI[of _ post]) simp
  next
    case Contradiction
    with Cons.prems one have s1: "s1 = s'" by simp
    from one Contradiction s1 have "no_candidates w (item (fst s) r0) (item rc r0) \<and> s' = s"
      by (simp add: reduce_line_contradiction)
    then show ?thesis by (intro exI[of _ "[]"] exI[of _ r0] exI[of _ rs]) simp
  next
    case (Raise e)
    with Cons.prems one show ?thesis by simp
  qed
qed

lemma reduce_cols_contradiction:
  assumes "reduce_cols mark cc h cs s = (Contradiction, s')"
  shows "\<exists>pre c post. cs = pre @ c # post \<and> reduce_cols mark cc h pre s = (Normal, s') \<and>
           no_candidates h (column (fst s') c [0..<h]) (item cc c)"
  using assms
proof (induction cs arbitrary: s)
  case Nil
  then show ?case by simp
next
  case (Cons c0 cs)
  obtain fl1 s1 where one:
    "reduce_line mark h (column (fst s) c0 [0..<h]) (item cc c0) (map (\<lambda>r. (r, c0)) [0..<h]) s
       = (fl1, s1)"
    by (cases "reduce_line mark h (column (fst s) c0 [0..<h]) (item cc c0)
                 (map (\<lambda>r. (r, c0)) [0..<h]) s")
  show ?case
  proof (cases fl1)
    case Normal
    with Cons.prems one have "reduce_cols mark cc h cs s1 = (Contradiction, s')" by simp
    from Cons.IH[OF this] obtain pre c post where
      p: "cs = pre @ c # post" "reduce_cols mark cc h pre s1 = (Normal, s')"
         "no_candidates h (column (fst s') c [0..<h]) (item cc c)" by blast
    have "reduce_cols mark cc h (c0 # pre) s = (Normal, s')" using one Normal p(2) by simp
    with p(1,3) show ?thesis by (intro exI[of _ "c0 # pre"] exI[of _ c] exI[of _ post]) simp
  next
    case Contradiction
    with Cons.prems one have s1: "s1 = s'" by simp
    from one Contradiction s1
    have "no_candidates h (column (fst s) c0 [0..<h]) (item cc c0) \<and> s' = s"
      by (simp add: reduce_line_contradiction)
    then show ?thesis by (intro exI[of _ "[]"] exI[of _ c0] exI[of _ cs]) simp
  next
    case (Raise e)
    with Cons.prems one show ?thesis by simp
  qed
qed

text \<open>
  A pass that ends in a contradiction returns the grid and the change marker as the
  lines before the line without candidates left them: the rows before row \<open>r\<close>, or all
  the rows and the columns before column \<open>c\<close>.
\<close>

lemma sweep_contradiction:
  assumes "sweep mark rc cc h w s = (Contradiction, s')"
  shows "(\<exists>r<h. reduce_rows mark rc w [0..<r] s = (Normal, s') \<and>
                 no_candidates w (item (fst s') r) (item rc r)) \<or>
         (\<exists>c<w. \<exists>s1. reduce_rows mark rc w [0..<h] s = (Normal, s1) \<and>
                 reduce_cols mark cc h [0..<c] s1 = (Normal, s') \<and>
                 no_candidates h (column (fst s') c [0..<h]) (item cc c))"
proof -
  obtain fl1 s1 where rows: "reduce_rows mark rc w [0..<h] s = (fl1, s1)"
    by (cases "reduce_rows mark rc w [0..<h] s")
  show ?thesis
  proof (cases fl1)
    case Normal
    with assms rows have "reduce_cols mark cc h [0..<w] s1 = (Contradiction, s')"
      by (simp add: sweep_def)
    from reduce_cols_contradiction[OF this] obtain pre c post where
      p: "[0..<w] = pre @ c # post" "reduce_cols mark cc h pre s1 = (Normal, s')"
         "no_candidates h (column (fst s') c [0..<h]) (item cc c)" by blast
    from upt_split[OF p(1)] p(2,3) rows Normal show ?thesis by auto
  next
    case Contradiction
    with assms rows have "reduce_rows mark rc w [0..<h] s = (Contradiction, s')"
      by (simp add: sweep_def)
    from reduce_rows_contradiction[OF this] obtain pre r post where
      p: "[0..<h] = pre @ r # post" "reduce_rows mark rc w pre s = (Normal, s')"
         "no_candidates w (item (fst s') r) (item rc r)" by blast
    from upt_split[OF p(1)] p(2,3) show ?thesis by auto
  next
    case (Raise e)
    with assms rows show ?thesis by (simp add: sweep_def)
  qed
qed

lemma propagate_once_failure:
  assumes "propagate_once g rc cc = (Inr (False, n), g')"
  shows "sweep Suc rc cc (length g) (length (g ! 0)) (g, 0) = (Contradiction, g', n)"
proof -
  from assms obtain row0 where row0: "item g 0 = Inr row0"
    by (auto simp: propagate_once_def split: sum.splits)
  then have r0: "row0 = g ! 0" by (simp add: item_Inr)
  obtain fl g1 m1 where sw: "sweep Suc rc cc (length g) (length (g ! 0)) (g, 0) = (fl, g1, m1)"
    by (metis prod_cases3)
  from assms row0 r0 sw show ?thesis
    by (cases fl) (auto simp: propagate_once_def)
qed

text \<open>
  A failed \<open>propagate\<close> made \<open>k\<close> full passes that changed the grid, and returns the
  grid as the pass after them left it when it met the line without candidates.
\<close>

lemma propagate_loop_failure:
  "propagate_loop rc cc h w st g polls = (Inr (False, st'), g', ps') \<Longrightarrow>
     \<exists>k ch. (\<forall>j<k. sweep (\<lambda>_. True) rc cc h w ((full_pass rc cc h w ^^ j) g, False)
                     = (Normal, (full_pass rc cc h w ^^ Suc j) g, True)) \<and>
            sweep (\<lambda>_. True) rc cc h w ((full_pass rc cc h w ^^ k) g, False)
              = (Contradiction, g', ch) \<and>
            iterations st' = iterations st + k + 1"
proof (induction rc cc h w st g polls rule: propagate_loop.induct)
  case (1 rc cc h w st g polls)
  let ?P = "full_pass rc cc h w"
  from "1.prems" obtain ps where ps: "check_cancel polls = Inr ps"
    by (subst (asm) propagate_loop.simps) (auto split: sum.splits)
  obtain fl g1 ch1 where sw: "sweep (\<lambda>_. True) rc cc h w (g, False) = (fl, g1, ch1)"
    by (metis prod_cases3)
  show ?case
  proof (cases fl)
    case Normal
    have ch1: "ch1"
    proof (rule ccontr)
      assume "\<not> ch1"
      with "1.prems" ps sw Normal show False
        by (subst (asm) propagate_loop.simps) simp
    qed
    let ?st1 = "st\<lparr>iterations := iterations st + 1, fixed_cells := count_fixed g1\<rparr>"
    from "1.prems" ps sw Normal ch1
    have rec: "propagate_loop rc cc h w ?st1 g1 ps = (Inr (False, st'), g', ps')"
      by (subst (asm) propagate_loop.simps) simp
    have g1: "g1 = ?P g" using sw by (simp add: full_pass_def)
    from "1.IH"[OF ps sw[symmetric] _ refl _ rec] Normal ch1
    have "\<exists>k ch. (\<forall>j<k. sweep (\<lambda>_. True) rc cc h w ((?P ^^ j) g1, False)
                     = (Normal, (?P ^^ Suc j) g1, True)) \<and>
            sweep (\<lambda>_. True) rc cc h w ((?P ^^ k) g1, False) = (Contradiction, g', ch) \<and>
            iterations st' = iterations ?st1 + k + 1"
      by simp
    then obtain k ch where
      pre: "\<forall>j<k. sweep (\<lambda>_. True) rc cc h w ((?P ^^ j) g1, False)
                     = (Normal, (?P ^^ Suc j) g1, True)"
      and last: "sweep (\<lambda>_. True) rc cc h w ((?P ^^ k) g1, False) = (Contradiction, g', ch)"
      and it: "iterations st' = iterations ?st1 + k + 1"
      by blast
    have shift: "(?P ^^ j) g1 = (?P ^^ Suc j) g" for j
      unfolding g1 by (simp add: funpow_swap1)
    have "\<forall>j<Suc k. sweep (\<lambda>_. True) rc cc h w ((?P ^^ j) g, False)
                     = (Normal, (?P ^^ Suc j) g, True)"
    proof (intro allI impI)
      fix j assume j: "j < Suc k"
      show "sweep (\<lambda>_. True) rc cc h w ((?P ^^ j) g, False) = (Normal, (?P ^^ Suc j) g, True)"
      proof (cases j)
        case 0
        then show ?thesis using sw Normal ch1 g1 by simp
      next
        case (Suc i)
        with j have "i < k" by simp
        with pre have "sweep (\<lambda>_. True) rc cc h w ((?P ^^ i) g1, False)
                     = (Normal, (?P ^^ Suc i) g1, True)" by blast
        then show ?thesis unfolding shift Suc .
      qed
    qed
    moreover have "sweep (\<lambda>_. True) rc cc h w ((?P ^^ Suc k) g, False) = (Contradiction, g', ch)"
      using last unfolding shift .
    moreover have "iterations st' = iterations st + Suc k + 1" using it by simp
    ultimately show ?thesis by blast
  next
    case Contradiction
    with "1.prems" ps sw have "g1 = g'" "iterations st' = iterations st + 1"
      by (subst (asm) propagate_loop.simps, auto)+
    with sw Contradiction show ?thesis by (intro exI[of _ 0] exI[of _ ch1]) simp
  next
    case (Raise e)
    with "1.prems" ps sw show ?thesis
      by (subst (asm) propagate_loop.simps) simp
  qed
qed

lemma propagate_failure:
  assumes "propagate g rc cc polls = (Inr (False, st'), g', ps')"
  shows "\<exists>k ch. (\<forall>j<k. sweep (\<lambda>_. True) rc cc (length g) (length (g ! 0))
                        ((full_pass rc cc (length g) (length (g ! 0)) ^^ j) g, False)
                     = (Normal, (full_pass rc cc (length g) (length (g ! 0)) ^^ Suc j) g, True)) \<and>
            sweep (\<lambda>_. True) rc cc (length g) (length (g ! 0))
                ((full_pass rc cc (length g) (length (g ! 0)) ^^ k) g, False)
              = (Contradiction, g', ch) \<and>
            iterations st' = k + 1"
proof -
  from assms obtain row0 where row0: "item g 0 = Inr row0"
    by (auto simp: propagate_def split: sum.splits)
  then have r0: "row0 = g ! 0" by (simp add: item_Inr)
  from assms row0 r0 have "propagate_loop rc cc (length g) (length (g ! 0)) SolveStats_init g polls
      = (Inr (False, st'), g', ps')"
    by (simp add: propagate_def)
  from propagate_loop_failure[OF this] show ?thesis by (simp add: SolveStats_init_def)
qed

text \<open>
  C10. A call of \<open>propagate_once\<close> or \<open>propagate\<close> that returns failure returns, with
  nothing undone, the grid as it was when the line without candidates was met. A pass
  that ends in a contradiction leaves the grid and the change marker as the lines before
  that line left them: the rows before row \<open>r\<close>, or every row and the columns before
  column \<open>c\<close>. The result of a failed \<open>propagate_once\<close> is that grid and that count, which
  is the number of cells that the call determined. A failed \<open>propagate\<close> made \<open>k\<close> full
  passes that changed the grid, and returns the grid of pass \<open>k + 1\<close> at its
  contradiction. On the 2 by 2 grid below the two cells of column 0 are written before
  column 1 has no candidate, and both calls return them written; on the 2 by 3 grid the
  six cells written by the first pass of \<open>propagate\<close> are returned by the second, failed
  pass.
\<close>

theorem failed_propagation_keeps_writes:
  "(sweep mark row_clues col_clues h w s = (Contradiction, s') \<longrightarrow>
      (\<exists>r<h. reduce_rows mark row_clues w [0..<r] s = (Normal, s') \<and>
              no_candidates w (item (fst s') r) (item row_clues r)) \<or>
      (\<exists>c<w. \<exists>s1. reduce_rows mark row_clues w [0..<h] s = (Normal, s1) \<and>
              reduce_cols mark col_clues h [0..<c] s1 = (Normal, s') \<and>
              no_candidates h (column (fst s') c [0..<h]) (item col_clues c))) \<and>
   (propagate_once grid row_clues col_clues = (Inr (False, n), grid') \<longrightarrow>
      sweep Suc row_clues col_clues (length grid) (length (grid ! 0)) (grid, 0)
        = (Contradiction, grid', n) \<and>
      determines grid grid' \<and> undetermined grid' + n = undetermined grid) \<and>
   (propagate grid row_clues col_clues polls = (Inr (False, stats), grid'', polls') \<longrightarrow>
      determines grid grid'' \<and>
      (\<exists>k ch.
         (\<forall>j<k. sweep (\<lambda>_. True) row_clues col_clues (length grid) (length (grid ! 0))
                   ((full_pass row_clues col_clues (length grid) (length (grid ! 0)) ^^ j) grid,
                    False)
                 = (Normal,
                    (full_pass row_clues col_clues (length grid) (length (grid ! 0)) ^^ Suc j) grid,
                    True)) \<and>
         sweep (\<lambda>_. True) row_clues col_clues (length grid) (length (grid ! 0))
             ((full_pass row_clues col_clues (length grid) (length (grid ! 0)) ^^ k) grid, False)
           = (Contradiction, grid'', ch) \<and>
         iterations stats = k + 1)) \<and>
   propagate_once [[UNKNOWN, UNKNOWN], [UNKNOWN, UNKNOWN]] [[1], [1]] [[2], [3]]
     = (Inr (False, 2), [[FILLED, UNKNOWN], [FILLED, UNKNOWN]]) \<and>
   propagate [[UNKNOWN, UNKNOWN], [UNKNOWN, UNKNOWN]] [[1], [1]] [[2], [3]] []
     = (Inr (False, \<lparr>iterations = 1, nodes = 0, max_depth = 0, fixed_cells = 0\<rparr>),
        [[FILLED, UNKNOWN], [FILLED, UNKNOWN]], []) \<and>
   propagate [[UNKNOWN, UNKNOWN, UNKNOWN], [UNKNOWN, UNKNOWN, UNKNOWN]]
       [[3], [1]] [[1], [2], [2]] []
     = (Inr (False, \<lparr>iterations = 2, nodes = 0, max_depth = 0, fixed_cells = 6\<rparr>),
        [[FILLED, FILLED, FILLED], [EMPTY, FILLED, FILLED]], []) \<and>
   propagate_once [[UNKNOWN], [UNKNOWN]] [[1], [1]] [[1]]
     = (Inr (False, 2), [[FILLED], [FILLED]]) \<and>
   propagate [[UNKNOWN], [UNKNOWN]] [[1], [1]] [[1]] []
     = (Inr (False, \<lparr>iterations = 1, nodes = 0, max_depth = 0, fixed_cells = 0\<rparr>),
        [[FILLED], [FILLED]], [])"
proof (intro conjI impI)
  assume "sweep mark row_clues col_clues h w s = (Contradiction, s')"
  then show "(\<exists>r<h. reduce_rows mark row_clues w [0..<r] s = (Normal, s') \<and>
              no_candidates w (item (fst s') r) (item row_clues r)) \<or>
      (\<exists>c<w. \<exists>s1. reduce_rows mark row_clues w [0..<h] s = (Normal, s1) \<and>
              reduce_cols mark col_clues h [0..<c] s1 = (Normal, s') \<and>
              no_candidates h (column (fst s') c [0..<h]) (item col_clues c))"
    by (rule sweep_contradiction)
next
  assume a: "propagate_once grid row_clues col_clues = (Inr (False, n), grid')"
  then show sw: "sweep Suc row_clues col_clues (length grid) (length (grid ! 0)) (grid, 0)
        = (Contradiction, grid', n)"
    by (rule propagate_once_failure)
  from sweep_determines[OF sw]
  show "determines grid grid'" and "undetermined grid' + n = undetermined grid"
    by auto
next
  assume a: "propagate grid row_clues col_clues polls = (Inr (False, stats), grid'', polls')"
  then show "determines grid grid''" by (rule propagate_determines)
  from a show "\<exists>k ch.
         (\<forall>j<k. sweep (\<lambda>_. True) row_clues col_clues (length grid) (length (grid ! 0))
                   ((full_pass row_clues col_clues (length grid) (length (grid ! 0)) ^^ j) grid,
                    False)
                 = (Normal,
                    (full_pass row_clues col_clues (length grid) (length (grid ! 0)) ^^ Suc j) grid,
                    True)) \<and>
         sweep (\<lambda>_. True) row_clues col_clues (length grid) (length (grid ! 0))
             ((full_pass row_clues col_clues (length grid) (length (grid ! 0)) ^^ k) grid, False)
           = (Contradiction, grid'', ch) \<and>
         iterations stats = k + 1"
    by (rule propagate_failure)
next
  show "propagate_once [[UNKNOWN, UNKNOWN], [UNKNOWN, UNKNOWN]] [[1], [1]] [[2], [3]]
     = (Inr (False, 2), [[FILLED, UNKNOWN], [FILLED, UNKNOWN]])"
    by code_simp
next
  show "propagate [[UNKNOWN, UNKNOWN], [UNKNOWN, UNKNOWN]] [[1], [1]] [[2], [3]] []
     = (Inr (False, \<lparr>iterations = 1, nodes = 0, max_depth = 0, fixed_cells = 0\<rparr>),
        [[FILLED, UNKNOWN], [FILLED, UNKNOWN]], [])"
    by code_simp
next
  show "propagate [[UNKNOWN, UNKNOWN, UNKNOWN], [UNKNOWN, UNKNOWN, UNKNOWN]]
       [[3], [1]] [[1], [2], [2]] []
     = (Inr (False, \<lparr>iterations = 2, nodes = 0, max_depth = 0, fixed_cells = 6\<rparr>),
        [[FILLED, FILLED, FILLED], [EMPTY, FILLED, FILLED]], [])"
    by code_simp
next
  show "propagate_once [[UNKNOWN], [UNKNOWN]] [[1], [1]] [[1]]
     = (Inr (False, 2), [[FILLED], [FILLED]])"
    by code_simp
next
  show "propagate [[UNKNOWN], [UNKNOWN]] [[1], [1]] [[1]] []
     = (Inr (False, \<lparr>iterations = 1, nodes = 0, max_depth = 0, fixed_cells = 0\<rparr>),
        [[FILLED], [FILLED]], [])"
    by code_simp
qed

theorem failed_propagation_keeps_writes_witness:
  "propagate_once [[UNKNOWN, UNKNOWN], [UNKNOWN, UNKNOWN]] [[1], [1]] [[2], [3]]
     = (Inr (False, 2), [[FILLED, UNKNOWN], [FILLED, UNKNOWN]]) \<and>
   sweep Suc [[1], [1]] [[2], [3]] 2 2 ([[UNKNOWN, UNKNOWN], [UNKNOWN, UNKNOWN]], 0)
     = (Contradiction, [[FILLED, UNKNOWN], [FILLED, UNKNOWN]], 2) \<and>
   reduce_rows Suc [[1], [1]] 2 [0..<2] ([[UNKNOWN, UNKNOWN], [UNKNOWN, UNKNOWN]], 0)
     = (Normal, [[UNKNOWN, UNKNOWN], [UNKNOWN, UNKNOWN]], 0) \<and>
   reduce_cols Suc [[2], [3]] 2 [0..<1] ([[UNKNOWN, UNKNOWN], [UNKNOWN, UNKNOWN]], 0)
     = (Normal, [[FILLED, UNKNOWN], [FILLED, UNKNOWN]], 2) \<and>
   no_candidates 2 (column [[FILLED, UNKNOWN], [FILLED, UNKNOWN]] 1 [0..<2]) (item [[2], [3]] 1) \<and>
   determines [[UNKNOWN, UNKNOWN], [UNKNOWN, UNKNOWN]] [[FILLED, UNKNOWN], [FILLED, UNKNOWN]] \<and>
   undetermined [[FILLED, UNKNOWN], [FILLED, UNKNOWN]] + 2
     = undetermined [[UNKNOWN, UNKNOWN], [UNKNOWN, UNKNOWN]] \<and>
   propagate [[UNKNOWN, UNKNOWN, UNKNOWN], [UNKNOWN, UNKNOWN, UNKNOWN]]
       [[3], [1]] [[1], [2], [2]] []
     = (Inr (False, \<lparr>iterations = 2, nodes = 0, max_depth = 0, fixed_cells = 6\<rparr>),
        [[FILLED, FILLED, FILLED], [EMPTY, FILLED, FILLED]], []) \<and>
   determines [[UNKNOWN, UNKNOWN, UNKNOWN], [UNKNOWN, UNKNOWN, UNKNOWN]]
     [[FILLED, FILLED, FILLED], [EMPTY, FILLED, FILLED]]"
proof -
  let ?g = "[[UNKNOWN, UNKNOWN], [UNKNOWN, UNKNOWN]]" and ?g' = "[[FILLED, UNKNOWN], [FILLED, UNKNOWN]]"
  let ?b = "[[UNKNOWN, UNKNOWN, UNKNOWN], [UNKNOWN, UNKNOWN, UNKNOWN]]"
  let ?b' = "[[FILLED, FILLED, FILLED], [EMPTY, FILLED, FILLED]]"
  let ?st = "\<lparr>iterations = 2, nodes = 0, max_depth = 0, fixed_cells = 6\<rparr>"
  have once: "propagate_once ?g [[1], [1]] [[2], [3]] = (Inr (False, 2), ?g')" by code_simp
  have run: "propagate ?b [[3], [1]] [[1], [2], [2]] [] = (Inr (False, ?st), ?b', [])"
    by code_simp
  have sw: "sweep Suc [[1], [1]] [[2], [3]] 2 2 (?g, 0) = (Contradiction, ?g', 2)" by code_simp
  have rows: "reduce_rows Suc [[1], [1]] 2 [0..<2] (?g, 0) = (Normal, ?g, 0)" by code_simp
  have cols: "reduce_cols Suc [[2], [3]] 2 [0..<1] (?g, 0) = (Normal, ?g', 2)" by code_simp
  have nc: "no_candidates 2 (column ?g' 1 [0..<2]) (item [[2], [3]] 1)" by code_simp
  note thm1 = failed_propagation_keeps_writes[where grid = ?g and row_clues = "[[1], [1]]"
      and col_clues = "[[2], [3]]" and n = 2 and grid' = ?g' and mark = Suc and h = 2 and w = 2
      and s = "(?g, 0)" and s' = "(?g', 2)"]
  note thm2 = failed_propagation_keeps_writes[where grid = ?b and row_clues = "[[3], [1]]"
      and col_clues = "[[1], [2], [2]]" and polls = "[]" and stats = ?st and grid'' = ?b'
      and polls' = "[]"]
  from thm1 once have d1: "determines ?g ?g'" "undetermined ?g' + 2 = undetermined ?g"
    by blast+
  from thm2 run have d2: "determines ?b ?b'" by blast
  from once sw rows cols nc d1 run d2 show ?thesis by blast
qed

theorem propagate_idempotent_after_success_witness:
  "propagate [[UNKNOWN, UNKNOWN, UNKNOWN], [UNKNOWN, UNKNOWN, UNKNOWN]] [[3], [1]] [[1], [2], [1]] []
     = (Inr (True, \<lparr>iterations = 2, nodes = 0, max_depth = 0, fixed_cells = 6\<rparr>),
        [[FILLED, FILLED, FILLED], [EMPTY, FILLED, EMPTY]], []) \<and>
   (\<exists>stats'. propagate [[FILLED, FILLED, FILLED], [EMPTY, FILLED, EMPTY]] [[3], [1]] [[1], [2], [1]] []
     = (Inr (True, stats'), [[FILLED, FILLED, FILLED], [EMPTY, FILLED, EMPTY]], []))"
proof -
  have first: "propagate [[UNKNOWN, UNKNOWN, UNKNOWN], [UNKNOWN, UNKNOWN, UNKNOWN]]
      [[3], [1]] [[1], [2], [1]] []
     = (Inr (True, \<lparr>iterations = 2, nodes = 0, max_depth = 0, fixed_cells = 6\<rparr>),
        [[FILLED, FILLED, FILLED], [EMPTY, FILLED, EMPTY]], [])"
    by code_simp
  have go: "check_cancel [] = Inr []" by (simp add: check_cancel_def)
  from propagate_idempotent_after_success[OF first go] first show ?thesis by simp
qed

text \<open>
  C4 as stated fails when the first call fails: on the all-unknown 2 by 2 grid with row
  clues \<open>[2], [1]\<close> and column clues \<open>[2], []\<close> the first call stops at column 1 with
  cell (1, 1) still unknown, and the second call sets that cell to \<open>EMPTY\<close>.
\<close>

theorem propagate_twice_counterexample:
  "propagate [[UNKNOWN, UNKNOWN], [UNKNOWN, UNKNOWN]] [[2], [1]] [[2], []] [] =
     (Inr (False, \<lparr>iterations = 1, nodes = 0, max_depth = 0, fixed_cells = 0\<rparr>),
      [[FILLED, FILLED], [FILLED, UNKNOWN]], []) \<and>
   propagate [[FILLED, FILLED], [FILLED, UNKNOWN]] [[2], [1]] [[2], []] [] =
     (Inr (False, \<lparr>iterations = 1, nodes = 0, max_depth = 0, fixed_cells = 0\<rparr>),
      [[FILLED, FILLED], [FILLED, EMPTY]], [])"
  by code_simp


section \<open>The branch selector\<close>

text \<open>
  The running best of \<open>_best_branch_line\<close>: \<open>best_type\<close>, \<open>best_index\<close>,
  \<open>best_candidates\<close>, \<open>best_count\<close>. \<open>scan_line\<close> is the body of either loop for one
  line: the line state is read, a line without \<open>UNKNOWN\<close> is skipped, the clue is read,
  the generator runs, and the best is replaced when \<open>count > 1 and count < best_count\<close>.
\<close>

type_synonym best = "string \<times> int \<times> int list list \<times> int"

definition scan_line ::
  "string \<Rightarrow> nat \<Rightarrow> exn + int list \<Rightarrow> exn + nat list \<Rightarrow> nat \<Rightarrow> best \<Rightarrow> exn + best"
where
  "scan_line line_type index line_state blocks len best =
     (case line_state of
        Inl e \<Rightarrow> Inl e
      | Inr ls \<Rightarrow>
          if UNKNOWN \<notin> set ls then Inr best
          else
            (case blocks of
               Inl e \<Rightarrow> Inl e
             | Inr bs \<Rightarrow>
                 (case line_candidates len bs ls of
                    Inl e \<Rightarrow> Inl e
                  | Inr candidates \<Rightarrow>
                      let count = int (length candidates)
                      in if count > 1 \<and> count < snd (snd (snd best))
                         then Inr (line_type, int index, candidates, count)
                         else Inr best)))"

definition best_branch_line ::
  "int list list \<Rightarrow> nat list list \<Rightarrow> nat list list \<Rightarrow> exn + string \<times> int \<times> int list list"
where
  "best_branch_line grid row_clues col_clues =
     (case item grid 0 of
        Inl e \<Rightarrow> Inl e
      | Inr row0 \<Rightarrow>
          let height = length grid; width = length row0
          in (case for_each (\<lambda>r. scan_line ''row'' r (item grid r) (item row_clues r) width)
                    [0..<height] ('''', - 1, [], 10 ^ 9) of
                Inl e \<Rightarrow> Inl e
              | Inr best \<Rightarrow>
                  (case for_each
                          (\<lambda>c. scan_line ''col'' c (column grid c [0..<height])
                                  (item col_clues c) height)
                          [0..<width] best of
                     Inl e \<Rightarrow> Inl e
                   | Inr (best_type, best_index, best_candidates, best_count) \<Rightarrow>
                       Inr (best_type, best_index, best_candidates))))"


subsection \<open>The selection the specification describes\<close>

text \<open>
  A well-formed puzzle, as \<open>Puzzle._validate\<close> checks it: at least one row, every row
  as long as the first, one row clue for each row and one column clue for each column.
\<close>

definition well_formed :: "int list list \<Rightarrow> nat list list \<Rightarrow> nat list list \<Rightarrow> bool" where
  "well_formed grid row_clues col_clues \<longleftrightarrow>
     grid \<noteq> [] \<and> (\<forall>row\<in>set grid. length row = length (grid ! 0)) \<and>
     length row_clues = length grid \<and> length col_clues = length (grid ! 0)"

definition candidates_of :: "nat \<Rightarrow> nat list \<Rightarrow> int list \<Rightarrow> int list list" where
  "candidates_of L blocks ls =
     (case line_candidates L blocks ls of Inl e \<Rightarrow> [] | Inr cands \<Rightarrow> cands)"

text \<open>
  The rows, then the columns, by ascending index, that still contain an \<open>UNKNOWN\<close>
  cell, each with its candidate set.
\<close>

definition lines_with_unknown ::
  "int list list \<Rightarrow> nat list list \<Rightarrow> nat list list \<Rightarrow> (string \<times> int \<times> int list list) list"
where
  "lines_with_unknown grid row_clues col_clues =
     map (\<lambda>r. (''row'', int r, candidates_of (length (grid ! 0)) (row_clues ! r) (grid ! r)))
       (filter (\<lambda>r. UNKNOWN \<in> set (grid ! r)) [0..<length grid]) @
     map (\<lambda>c. (''col'', int c,
                candidates_of (length grid) (col_clues ! c) (map (\<lambda>row. row ! c) grid)))
       (filter (\<lambda>c. UNKNOWN \<in> set (map (\<lambda>row. row ! c) grid)) [0..<length (grid ! 0)])"

definition set_size :: "string \<times> int \<times> int list list \<Rightarrow> nat" where
  "set_size l = length (snd (snd l))"

text \<open>A line can be branched on when it has more than one candidate, and fewer than
  the initial \<open>best_count\<close>.\<close>

definition branchable :: "string \<times> int \<times> int list list \<Rightarrow> bool" where
  "branchable l \<longleftrightarrow> 1 < set_size l \<and> int (set_size l) < 10 ^ 9"

text \<open>The first line of a list whose candidate set is no larger than any other's;
  \<open>("", -1, ())\<close> for the empty list.\<close>

definition first_smallest ::
  "(string \<times> int \<times> int list list) list \<Rightarrow> string \<times> int \<times> int list list"
where
  "first_smallest ls =
     (case find (\<lambda>l. \<forall>l'\<in>set ls. set_size l \<le> set_size l') ls of
        None \<Rightarrow> ('''', - 1, [])
      | Some l \<Rightarrow> l)"

text \<open>The selection as the code makes it.\<close>

definition select_bounded ::
  "int list list \<Rightarrow> nat list list \<Rightarrow> nat list list \<Rightarrow> string \<times> int \<times> int list list"
where
  "select_bounded grid row_clues col_clues =
     first_smallest (filter branchable (lines_with_unknown grid row_clues col_clues))"

text \<open>The selection as the specification words it: the smallest candidate-set size
  strictly greater than 1, first line winning ties.\<close>

definition more_than_one :: "string \<times> int \<times> int list list \<Rightarrow> bool" where
  "more_than_one l \<longleftrightarrow> 1 < set_size l"

definition select_claimed ::
  "int list list \<Rightarrow> nat list list \<Rightarrow> nat list list \<Rightarrow> string \<times> int \<times> int list list"
where
  "select_claimed grid row_clues col_clues =
     first_smallest (filter more_than_one (lines_with_unknown grid row_clues col_clues))"


subsection \<open>The selector computes that selection\<close>

lemma for_each_append:
  "for_each f (xs @ ys) s =
     (case for_each f xs s of Inl e \<Rightarrow> Inl e | Inr s' \<Rightarrow> for_each f ys s')"
  by (induction xs arbitrary: s) (auto split: sum.splits)

text \<open>The running best after the branchable lines \<open>ls\<close> have been seen.\<close>

definition best_of :: "(string \<times> int \<times> int list list) list \<Rightarrow> best \<Rightarrow> bool" where
  "best_of ls b \<longleftrightarrow>
     (ls = [] \<and> b = ('''', - 1, [], 10 ^ 9)) \<or>
     (\<exists>k<length ls.
        b = (fst (ls ! k), fst (snd (ls ! k)), snd (snd (ls ! k)), int (set_size (ls ! k))) \<and>
        (\<forall>j<length ls. set_size (ls ! k) \<le> set_size (ls ! j)) \<and>
        (\<forall>j<k. set_size (ls ! k) < set_size (ls ! j)))"

lemma best_of_bound:
  "best_of ls b \<Longrightarrow> \<forall>l\<in>set ls. branchable l \<Longrightarrow> snd (snd (snd b)) \<le> 10 ^ 9"
  by (auto simp: best_of_def branchable_def) (metis nth_mem less_imp_le)

lemma best_of_skip:
  assumes "best_of ls b" "\<forall>l\<in>set ls. branchable l" "\<not> branchable (t, i, cands)"
  shows "\<not> (int (length cands) > 1 \<and> int (length cands) < snd (snd (snd b)))"
  using best_of_bound[OF assms(1,2)] assms(3) by (auto simp: branchable_def set_size_def)

lemma best_of_take:
  assumes b: "best_of ls b" and br: "branchable (t, i, cands)"
    and lt: "int (length cands) < snd (snd (snd b))"
  shows "best_of (ls @ [(t, i, cands)]) (t, i, cands, int (length cands))"
proof -
  let ?l = "(t, i, cands)"
  have smaller: "set_size ?l < set_size (ls ! j)" if "j < length ls" for j
  proof -
    from b that obtain k where k: "k < length ls"
      "b = (fst (ls ! k), fst (snd (ls ! k)), snd (snd (ls ! k)), int (set_size (ls ! k)))"
      "\<forall>j<length ls. set_size (ls ! k) \<le> set_size (ls ! j)"
      by (auto simp: best_of_def)
    then have "set_size ?l < set_size (ls ! k)" using lt by (simp add: set_size_def)
    with k(3) that show ?thesis by (meson less_le_trans)
  qed
  have "length ls < length (ls @ [?l])" by simp
  moreover have "(ls @ [?l]) ! length ls = ?l" by simp
  moreover have "\<forall>j<length (ls @ [?l]). set_size ?l \<le> set_size ((ls @ [?l]) ! j)"
    using smaller by (auto simp: nth_append less_imp_le)
  moreover have "\<forall>j<length ls. set_size ?l < set_size ((ls @ [?l]) ! j)"
    using smaller by (auto simp: nth_append)
  ultimately show ?thesis
    unfolding best_of_def
    by (intro disjI2 exI[of _ "length ls"]) (simp add: set_size_def)
qed

lemma best_of_keep:
  assumes b: "best_of ls b" and br: "branchable (t, i, cands)" "\<forall>l\<in>set ls. branchable l"
    and ge: "\<not> int (length cands) < snd (snd (snd b))"
  shows "best_of (ls @ [(t, i, cands)]) b"
proof -
  let ?l = "(t, i, cands)"
  have "ls \<noteq> []"
  proof
    assume "ls = []"
    with b have "snd (snd (snd b)) = 10 ^ 9" by (auto simp: best_of_def)
    with ge br(1) show False by (simp add: branchable_def set_size_def)
  qed
  with b obtain k where k: "k < length ls"
      "b = (fst (ls ! k), fst (snd (ls ! k)), snd (snd (ls ! k)), int (set_size (ls ! k)))"
      "\<forall>j<length ls. set_size (ls ! k) \<le> set_size (ls ! j)"
      "\<forall>j<k. set_size (ls ! k) < set_size (ls ! j)"
    by (auto simp: best_of_def)
  have le: "set_size (ls ! k) \<le> set_size ?l" using ge k(2) by (simp add: set_size_def)
  show ?thesis
    unfolding best_of_def
    using k le by (intro disjI2 exI[of _ k]) (auto simp: nth_append)
qed

lemma best_of_first_smallest:
  assumes "best_of ls (t, i, cands, n)"
  shows "first_smallest ls = (t, i, cands)"
proof (cases "ls = []")
  case True
  with assms show ?thesis by (auto simp: best_of_def first_smallest_def)
next
  case False
  with assms obtain k where k: "k < length ls" "ls ! k = (t, i, cands)"
      "\<forall>j<length ls. set_size (ls ! k) \<le> set_size (ls ! j)"
      "\<forall>j<k. set_size (ls ! k) < set_size (ls ! j)"
    by (auto simp: best_of_def)
  let ?P = "\<lambda>l. \<forall>l'\<in>set ls. set_size l \<le> set_size l'"
  have "?P (ls ! k)" using k(3) by (metis in_set_conv_nth)
  moreover have "\<not> ?P (ls ! j)" if "j < k" for j
    using k(4) that k(1) by (metis nth_mem not_le)
  ultimately have "find ?P ls = Some (ls ! k)"
    using k(1) by (auto simp: find_Some_iff)
  then show ?thesis using k(2) by (simp add: first_smallest_def)
qed



lemma scan_line_best_of:
  assumes b: "best_of ls b" and br: "\<forall>l\<in>set ls. branchable l"
    and lc: "line_candidates len bs st = Inr cands"
  shows "\<exists>b'. scan_line t idx (Inr st) (Inr bs) len b = Inr b' \<and>
           best_of (ls @ filter branchable (if UNKNOWN \<in> set st then [(t, int idx, cands)] else [])) b'"
proof (cases "UNKNOWN \<in> set st")
  case False
  then show ?thesis using b by (simp add: scan_line_def)
next
  case True
  show ?thesis
  proof (cases "branchable (t, int idx, cands)")
    case nb: False
    from best_of_skip[OF b br nb] have "scan_line t idx (Inr st) (Inr bs) len b = Inr b"
      using True lc by (auto simp: scan_line_def Let_def)
    then show ?thesis using b True nb by simp
  next
    case yb: True
    then have gt: "int (length cands) > 1" by (simp add: branchable_def set_size_def)
    show ?thesis
    proof (cases "int (length cands) < snd (snd (snd b))")
      case lt: True
      then have "scan_line t idx (Inr st) (Inr bs) len b
                   = Inr (t, int idx, cands, int (length cands))"
        using True lc gt by (simp add: scan_line_def Let_def)
      then show ?thesis using best_of_take[OF b yb lt] True yb by simp
    next
      case ge: False
      then have "scan_line t idx (Inr st) (Inr bs) len b = Inr b"
        using True lc by (simp add: scan_line_def Let_def)
      then show ?thesis using best_of_keep[OF b yb br ge] True yb by simp
    qed
  qed
qed

lemma scan_loop:
  assumes init: "best_of (filter branchable pre) b0"
    and ok: "\<And>i. i < k \<Longrightarrow> lsf i = Inr (st i) \<and> bsf i = Inr (bs i) \<and>
                line_candidates len (bs i) (st i) = Inr (cands i)"
  shows "\<exists>b. for_each (\<lambda>i. scan_line t i (lsf i) (bsf i) len) [0..<k] b0 = Inr b \<and>
           best_of (filter branchable
             (pre @ map (\<lambda>i. (t, int i, cands i)) (filter (\<lambda>i. UNKNOWN \<in> set (st i)) [0..<k]))) b"
  using ok
proof (induction k)
  case 0
  then show ?case using init by simp
next
  case (Suc k)
  let ?seen = "\<lambda>k. filter branchable
             (pre @ map (\<lambda>i. (t, int i, cands i)) (filter (\<lambda>i. UNKNOWN \<in> set (st i)) [0..<k]))"
  have "\<exists>b. for_each (\<lambda>i. scan_line t i (lsf i) (bsf i) len) [0..<k] b0 = Inr b \<and>
           best_of (?seen k) b"
    by (rule Suc.IH) (simp add: Suc.prems)
  then obtain b where run: "for_each (\<lambda>i. scan_line t i (lsf i) (bsf i) len) [0..<k] b0 = Inr b"
    and b: "best_of (?seen k) b"
    by blast
  from Suc.prems[of k] have k: "lsf k = Inr (st k)" "bsf k = Inr (bs k)"
    "line_candidates len (bs k) (st k) = Inr (cands k)"
    by auto
  have br: "\<forall>l\<in>set (?seen k). branchable l" by auto
  from scan_line_best_of[OF b br k(3), of t k] obtain b' where
    step: "scan_line t k (Inr (st k)) (Inr (bs k)) len b = Inr b'"
    and b': "best_of (?seen k @ filter branchable
               (if UNKNOWN \<in> set (st k) then [(t, int k, cands k)] else [])) b'"
    by blast
  have "?seen (Suc k) = ?seen k @ filter branchable
               (if UNKNOWN \<in> set (st k) then [(t, int k, cands k)] else [])"
    by simp
  with b' have "best_of (?seen (Suc k)) b'" by simp
  moreover have "for_each (\<lambda>i. scan_line t i (lsf i) (bsf i) len) [0..<Suc k] b0 = Inr b'"
    using run step k by (simp add: for_each_append)
  ultimately show ?case by blast
qed

lemma column_total:
  "\<forall>r\<in>set rs. r < length grid \<and> c < length (grid ! r) \<Longrightarrow>
     column grid c rs = Inr (map (\<lambda>r. grid ! r ! c) rs)"
  by (induction rs) (auto simp: get_cell_def item_def)

lemma column_well_formed:
  assumes "\<forall>row\<in>set grid. length row = w" "c < w"
  shows "column grid c [0..<length grid] = Inr (map (\<lambda>row. row ! c) grid)"
proof -
  have "column grid c [0..<length grid] = Inr (map (\<lambda>r. grid ! r ! c) [0..<length grid])"
    by (rule column_total) (use assms in auto)
  moreover have "map (\<lambda>r. grid ! r ! c) [0..<length grid] = map (\<lambda>row. row ! c) grid"
    by (rule nth_equalityI) auto
  ultimately show ?thesis by simp
qed

lemma candidates_of_eq:
  "L \<le> length ls \<Longrightarrow> line_candidates L bs ls = Inr (candidates_of L bs ls)"
  using line_candidates_total[of L ls bs] by (auto simp: candidates_of_def)




lemma scan_selects:
  assumes "well_formed grid row_clues col_clues"
  shows "best_branch_line grid row_clues col_clues
           = Inr (select_bounded grid row_clues col_clues)"
proof -
  let ?h = "length grid" and ?w = "length (grid ! 0)"
  from assms have ne: "grid \<noteq> []" and rect: "\<forall>row\<in>set grid. length row = ?w"
    and rc: "length row_clues = ?h" and cc: "length col_clues = ?w"
    unfolding well_formed_def by blast+
  have row0: "item grid 0 = Inr (grid ! 0)" using ne by (simp add: item_def)
  let ?rows = "map (\<lambda>r. (''row'', int r, candidates_of ?w (row_clues ! r) (grid ! r)))
                 (filter (\<lambda>r. UNKNOWN \<in> set (grid ! r)) [0..<?h])"
  let ?cols = "map (\<lambda>c. (''col'', int c,
                  candidates_of ?h (col_clues ! c) (map (\<lambda>row. row ! c) grid)))
                 (filter (\<lambda>c. UNKNOWN \<in> set (map (\<lambda>row. row ! c) grid)) [0..<?w])"
  have b0: "best_of (filter branchable []) ('''', - 1, [], 10 ^ 9)"
    unfolding best_of_def by simp
  have ok_rows: "item grid r = Inr (grid ! r) \<and> item row_clues r = Inr (row_clues ! r) \<and>
      line_candidates ?w (row_clues ! r) (grid ! r)
        = Inr (candidates_of ?w (row_clues ! r) (grid ! r))" if "r < ?h" for r
    using that rect rc by (simp add: item_def candidates_of_eq)
  have ok_cols: "column grid c [0..<?h] = Inr (map (\<lambda>row. row ! c) grid) \<and>
      item col_clues c = Inr (col_clues ! c) \<and>
      line_candidates ?h (col_clues ! c) (map (\<lambda>row. row ! c) grid)
        = Inr (candidates_of ?h (col_clues ! c) (map (\<lambda>row. row ! c) grid))" if "c < ?w" for c
    using that cc column_well_formed[OF rect that] by (simp add: item_def candidates_of_eq)
  from scan_loop[where pre = "[]" and cands = "\<lambda>r. candidates_of ?w (row_clues ! r) (grid ! r)"
      and t = "''row''", OF b0 ok_rows]
  obtain b1 where rows: "for_each (\<lambda>r. scan_line ''row'' r (item grid r) (item row_clues r) ?w)
        [0..<?h] ('''', - 1, [], 10 ^ 9) = Inr b1"
    and b1: "best_of (filter branchable ([] @ ?rows)) b1"
    by blast
  from scan_loop[where pre = "[] @ ?rows"
      and cands = "\<lambda>c. candidates_of ?h (col_clues ! c) (map (\<lambda>row. row ! c) grid)"
      and t = "''col''", OF b1 ok_cols]
  obtain b2 where cols: "for_each (\<lambda>c. scan_line ''col'' c (column grid c [0..<?h])
        (item col_clues c) ?h) [0..<?w] b1 = Inr b2"
    and b2: "best_of (filter branchable (([] @ ?rows) @ ?cols)) b2"
    by blast
  obtain t i cands n where b2_eq: "b2 = (t, i, cands, n)" by (cases b2) auto
  have "first_smallest (filter branchable (?rows @ ?cols)) = (t, i, cands)"
    using best_of_first_smallest[of "filter branchable (?rows @ ?cols)" t i cands n] b2 b2_eq
    by simp
  then have "select_bounded grid row_clues col_clues = (t, i, cands)"
    by (simp add: select_bounded_def lines_with_unknown_def)
  moreover have "best_branch_line grid row_clues col_clues = Inr (t, i, cands)"
    using row0 rows cols b2_eq by (simp add: best_branch_line_def)
  ultimately show ?thesis by simp
qed

text \<open>
  C8. On a well-formed puzzle the branch selector returns, among the rows and columns
  that still contain an \<open>UNKNOWN\<close> cell and have more than one candidate, the first in
  scan order (rows before columns, ascending index) whose candidate set is smallest, with
  that candidate set; it returns \<open>("", -1, ())\<close> when there is no such line. The
  candidate sets are taken to have fewer than \<open>10 ^ 9\<close> members each: \<open>best_count\<close>
  starts at \<open>10 ^ 9\<close>, which stands for no line seen yet, and the generator has built
  every candidate list in full before the selector compares their lengths.
\<close>

theorem best_branch_line_first_smallest:
  assumes "well_formed grid row_clues col_clues"
    and "\<forall>l\<in>set (lines_with_unknown grid row_clues col_clues). int (set_size l) < 10 ^ 9"
  shows "best_branch_line grid row_clues col_clues
           = Inr (select_claimed grid row_clues col_clues)"
proof -
  have "filter more_than_one (lines_with_unknown grid row_clues col_clues)
          = filter branchable (lines_with_unknown grid row_clues col_clues)"
    by (rule filter_cong) (use assms(2) in \<open>auto simp: more_than_one_def branchable_def\<close>)
  then have "select_claimed grid row_clues col_clues = select_bounded grid row_clues col_clues"
    by (simp add: select_claimed_def select_bounded_def)
  with scan_selects[OF assms(1)] show ?thesis by simp
qed

theorem best_branch_line_first_smallest_witness:
  "well_formed [[UNKNOWN, UNKNOWN, UNKNOWN], [UNKNOWN, UNKNOWN, UNKNOWN]]
     [[1], [1, 1]] [[1], [1], [1]] \<and>
   select_claimed [[UNKNOWN, UNKNOWN, UNKNOWN], [UNKNOWN, UNKNOWN, UNKNOWN]]
     [[1], [1, 1]] [[1], [1], [1]] = (''col'', 0, [[FILLED, EMPTY], [EMPTY, FILLED]]) \<and>
   best_branch_line [[UNKNOWN, UNKNOWN, UNKNOWN], [UNKNOWN, UNKNOWN, UNKNOWN]]
     [[1], [1, 1]] [[1], [1], [1]] = Inr (''col'', 0, [[FILLED, EMPTY], [EMPTY, FILLED]])"
proof -
  let ?g = "[[UNKNOWN, UNKNOWN, UNKNOWN], [UNKNOWN, UNKNOWN, UNKNOWN]]"
  have wf: "well_formed ?g [[1], [1, 1]] [[1], [1], [1]]"
    by (simp add: well_formed_def)
  have small: "\<forall>l\<in>set (lines_with_unknown ?g [[1], [1, 1]] [[1], [1], [1]]).
                 int (set_size l) < 10 ^ 9"
    by code_simp
  have ev: "select_claimed ?g [[1], [1, 1]] [[1], [1], [1]]
              = (''col'', 0, [[FILLED, EMPTY], [EMPTY, FILLED]])"
    by code_simp
  from best_branch_line_first_smallest[OF wf small] ev wf show ?thesis by simp
qed


lemma first_smallest_in: "ls \<noteq> [] \<Longrightarrow> first_smallest ls \<in> set ls"
proof -
  assume ne: "ls \<noteq> []"
  let ?P = "\<lambda>l. \<forall>l'\<in>set ls. set_size l \<le> set_size l'"
  have "Min (set_size ` set ls) \<in> set_size ` set ls"
    using ne by (intro Min_in) auto
  then obtain l where l: "l \<in> set ls" "set_size l = Min (set_size ` set ls)"
    by auto
  have "?P l" using l(2) by (simp add: Min_le)
  with l(1) have "find ?P ls \<noteq> None"
    unfolding find_None_iff by blast
  then obtain x where "find ?P ls = Some x" by blast
  moreover from this have "x \<in> set ls" by (auto simp: find_Some_iff)
  ultimately show ?thesis by (simp add: first_smallest_def)
qed

lemma for_each_counts:
  assumes "\<And>x l c. x \<in> set xs \<Longrightarrow> \<exists>l' z. f x (l, c) = Inr (l', c @ [z])"
  shows "\<exists>l' c'. for_each f xs (l, c) = Inr (l', c') \<and> length c' = length c + length xs"
  using assms
proof (induction xs arbitrary: l c)
  case Nil
  then show ?case by simp
next
  case (Cons x xs)
  from Cons.prems[of x l c] obtain l1 z where 1: "f x (l, c) = Inr (l1, c @ [z])" by auto
  from Cons.IH[of l1 "c @ [z]"] Cons.prems obtain l' c' where
    "for_each f xs (l1, c @ [z]) = Inr (l', c')" "length c' = length (c @ [z]) + length xs"
    by auto
  with 1 show ?case by simp
qed

lemma single_block_count:
  "length (candidates_of N [1] (replicate N UNKNOWN)) = N"
proof -
  let ?ls = "replicate N UNKNOWN"
  have step: "\<exists>l' z. try_start (place N ?ls []) N ?ls 1 True 0 start (l, c) = Inr (l', c @ [z])"
    if "start \<in> set [0..<N]" for start l c
  proof -
    have g: "holds_at ?ls FILLED [0..<start] = Inr False"
      using holds_at_total[of "[0..<start]" ?ls FILLED] that by auto
    have k: "holds_at ?ls EMPTY [start..<start + 1] = Inr False"
      using holds_at_total[of "[start..<start + 1]" ?ls EMPTY] that by auto
    have t: "holds_at ?ls FILLED [Suc start..<N] = Inr False"
      using holds_at_total[of "[Suc start..<N]" ?ls FILLED] by auto
    show ?thesis
      unfolding try_start_def g k by (simp add: Let_def t)
  qed
  have "nat (int N - int (1 + (sum_list [] + length ([]::nat list))) + 1) = N" by simp
  then have "place N ?ls [1] 0 (replicate N EMPTY, []) =
      for_each (try_start (place N ?ls []) N ?ls 1 True 0) [0..<N] (replicate N EMPTY, [])"
    by (simp add: Let_def del: upt_Suc)
  moreover from for_each_counts[of "[0..<N]" "try_start (place N ?ls []) N ?ls 1 True 0"
      "replicate N EMPTY" "[]"] step
  obtain l' c' where "for_each (try_start (place N ?ls []) N ?ls 1 True 0) [0..<N]
      (replicate N EMPTY, []) = Inr (l', c')" "length c' = N"
    by auto
  ultimately show ?thesis
    by (simp add: candidates_of_def line_candidates_def)
qed

lemma wide_row_lines:
  assumes "l \<in> set (lines_with_unknown [replicate N UNKNOWN] [[1]] (replicate N []))"
  shows "set_size l = N \<or> set_size l = 1"
proof -
  have col: "candidates_of (Suc 0) [] [UNKNOWN] = [[EMPTY]]"
    by (simp add: candidates_of_def line_candidates_def)
  have row: "length (candidates_of N [Suc 0] (replicate N UNKNOWN)) = N"
    using single_block_count[of N] by simp
  from assms show ?thesis
    by (auto simp: lines_with_unknown_def set_size_def row col split: if_splits)
qed

lemma wide_row_none:
  assumes "10 ^ 9 \<le> int N"
  shows "best_branch_line [replicate N UNKNOWN] [[1]] (replicate N []) = Inr ('''', - 1, [])"
proof -
  have wf: "well_formed [replicate N UNKNOWN] [[1]] (replicate N [])"
    by (simp add: well_formed_def)
  have "\<not> branchable l"
    if "l \<in> set (lines_with_unknown [replicate N UNKNOWN] [[1]] (replicate N []))" for l
    using wide_row_lines[OF that] assms by (auto simp: branchable_def)
  then have "filter branchable (lines_with_unknown [replicate N UNKNOWN] [[1]] (replicate N []))
               = []"
    by (simp add: filter_empty_conv)
  then show ?thesis
    using scan_selects[OF wf]
    by (simp add: select_bounded_def first_smallest_def)
qed

text \<open>
  The bound on the candidate sets is used: in the model, where a candidate list can be of
  any length, a row of \<open>10 ^ 9\<close> unknown cells with the clue \<open>[1]\<close> has \<open>10 ^ 9\<close>
  candidates, which is not below the start value of \<open>best_count\<close>, and the selector
  passes over it.
\<close>

lemma start_value_passes_over:
  "best_branch_line [replicate 1000000000 UNKNOWN] [[1]] (replicate 1000000000 []) =
     Inr ('''', - 1, [])"
  using wide_row_none[of 1000000000] by simp


section \<open>The search engine\<close>

text \<open>
  \<open>solve_nonogram\<close> must not change the grid it is given, and whether it does depends
  on which list objects \<open>dfs\<close> writes into. The search is therefore modelled over a store
  of row objects: a store is the list of all row lists there are, the address of a row is
  its position in the store, and a grid is the list of the addresses of its rows. The
  outer list of a grid is never written by the solver.
\<close>

type_synonym store = "int list list"

definition load_grid :: "store \<Rightarrow> nat list \<Rightarrow> int list list" where
  "load_grid heap refs = map (\<lambda>a. heap ! a) refs"

text \<open>
  Writing into the rows of a grid in place: the rows at \<open>refs\<close> take the values a
  function on grid values computed for them. This is what a function that assigns
  \<open>grid[r][c] = v\<close> does to the store when the rows of the grid are distinct objects, as
  they are for every grid \<open>dfs\<close> works on (each is made by \<open>copy_grid\<close>).
\<close>

definition store_grid :: "store \<Rightarrow> nat list \<Rightarrow> int list list \<Rightarrow> store" where
  "store_grid heap refs grid = fold (\<lambda>(a, row) h. h[a := row]) (zip refs grid) heap"

text \<open>\<^verbatim>\<open>[row[:] for row in grid]\<close>: a new row object for each row, at the end of the store.\<close>

definition copy_grid :: "store \<Rightarrow> nat list \<Rightarrow> store \<times> nat list" where
  "copy_grid heap refs =
     (heap @ load_grid heap refs, [length heap..<length heap + length refs])"

definition put_cell :: "int list list \<Rightarrow> nat \<Rightarrow> nat \<Rightarrow> int \<Rightarrow> exn + int list list" where
  "put_cell grid r c v =
     (if r < length grid \<and> c < length (grid ! r) then Inr (set_cell grid r c v)
      else Inl IndexError)"

text \<open>
  \<^verbatim>\<open>for c in range(width): new_grid[index][c] = cand[c]\<close> and
  \<^verbatim>\<open>for r in range(len(new_grid)): new_grid[r][index] = cand[r]\<close>
\<close>

definition write_row :: "int list \<Rightarrow> nat \<Rightarrow> nat \<Rightarrow> int list list \<Rightarrow> exn + int list list" where
  "write_row cand index width new_grid =
     for_each
       (\<lambda>c g. case item cand c of Inl e \<Rightarrow> Inl e | Inr v \<Rightarrow> put_cell g index c v)
       [0..<width] new_grid"

definition write_col :: "int list \<Rightarrow> nat \<Rightarrow> int list list \<Rightarrow> exn + int list list" where
  "write_col cand index new_grid =
     for_each
       (\<lambda>r g. case item cand r of Inl e \<Rightarrow> Inl e | Inr v \<Rightarrow> put_cell g r index v)
       [0..<length new_grid] new_grid"

text \<open>
  What \<open>dfs\<close> shares across its calls: the store, the \<open>solutions\<close> found, the
  \<open>stats\<close>, and the answers \<open>stop_event\<close> has yet to give. A solution is kept as the
  value of its rows: the copy that \<open>dfs\<close> appends is never written again.
\<close>

type_synonym world = "store \<times> int list list list \<times> SolveStats \<times> bool list"

text \<open>
  The body of \<open>dfs\<close> down to its loop. It either leaves \<open>dfs\<close>, by \<open>return\<close> or with
  an exception, or reaches the loop with a line to branch on.
\<close>

datatype node = Leave "exn option" world | Split string int "int list list" world

definition enter ::
  "nat list list \<Rightarrow> nat list list \<Rightarrow> nat list \<Rightarrow> nat \<Rightarrow> world \<Rightarrow> node"
where
  "enter row_clues col_clues cur_grid depth w =
     (case w of (heap, solutions, stats, polls) \<Rightarrow>
     (case check_cancel polls of
        Inl e \<Rightarrow> Leave (Some e) (heap, solutions, stats, polls)
      | Inr polls1 \<Rightarrow>
          let stats1 = stats\<lparr>nodes := nodes stats + 1,
                             max_depth := max (max_depth stats) depth\<rparr>
          in (case propagate (load_grid heap cur_grid) row_clues col_clues polls1 of
                (result, grid', polls2) \<Rightarrow>
                  let heap1 = store_grid heap cur_grid grid'
                  in (case result of
                        Inl e \<Rightarrow> Leave (Some e) (heap1, solutions, stats1, polls2)
                      | Inr (ok, pstats) \<Rightarrow>
                          let stats2 = stats1\<lparr>iterations := iterations stats1 + iterations pstats,
                                              fixed_cells := count_fixed (load_grid heap1 cur_grid)\<rparr>
                          in if \<not> ok then Leave None (heap1, solutions, stats2, polls2)
                             else if is_solved (load_grid heap1 cur_grid) then
                               Leave None (heap1, solutions @ [load_grid heap1 cur_grid],
                                           stats2, polls2)
                             else
                               (case best_branch_line (load_grid heap1 cur_grid)
                                       row_clues col_clues of
                                  Inl e \<Rightarrow> Leave (Some e) (heap1, solutions, stats2, polls2)
                                | Inr (line_type, index, candidates) \<Rightarrow>
                                    if candidates = [] then
                                      Leave None (heap1, solutions, stats2, polls2)
                                    else
                                      Split line_type index candidates
                                        (heap1, solutions, stats2, polls2))))))"

text \<open>
  The body of the loop down to the recursive call: the loop is left when the cap is
  reached, and else the grid for the call is made. \<open>index\<close> is the number of the
  selected line here, and so not negative.
\<close>

datatype attempt = Return world | Raised exn world | Recurse "nat list" world

definition prepare ::
  "nat \<Rightarrow> int \<Rightarrow> nat list \<Rightarrow> string \<Rightarrow> int \<Rightarrow> int list \<Rightarrow> world \<Rightarrow> attempt"
where
  "prepare width max_solutions cur_grid line_type index cand w =
     (case w of (heap, solutions, stats, polls) \<Rightarrow>
     (if int (length solutions) \<ge> max_solutions then Return (heap, solutions, stats, polls)
      else
        (case copy_grid heap cur_grid of
           (heap1, new_grid) \<Rightarrow>
             (case (if line_type = ''row''
                    then write_row cand (nat index) width (load_grid heap1 new_grid)
                    else write_col cand (nat index) (load_grid heap1 new_grid)) of
                Inl e \<Rightarrow> Raised e (heap1, solutions, stats, polls)
              | Inr filled \<Rightarrow>
                  Recurse new_grid (store_grid heap1 new_grid filled, solutions, stats, polls)))))"

text \<open>
  \<open>dfs\<close> is recursive through its loop over the candidates, \<open>branch\<close>. The first
  argument bounds the depth of the recursion; \<open>None\<close> says that the bound was reached.
  The result tells whether an exception left the call, and the shared state then.
  \<open>env\<close> holds the variables of \<open>solve_nonogram\<close> that \<open>dfs\<close> reads (\<open>row_clues\<close>,
  \<open>col_clues\<close>, \<open>width\<close>, \<open>max_solutions\<close>), and \<open>frame\<close> the local variables of the
  call of \<open>dfs\<close> that the loop reads (\<open>cur_grid\<close>, \<open>depth\<close>, \<open>line_type\<close>, \<open>index\<close>).
\<close>

type_synonym env = "nat list list \<times> nat list list \<times> nat \<times> int"

type_synonym frame = "nat list \<times> nat \<times> string \<times> int"

function dfs :: "nat \<Rightarrow> env \<Rightarrow> nat list \<Rightarrow> nat \<Rightarrow> world \<Rightarrow> (exn option \<times> world) option"
and branch :: "nat \<Rightarrow> env \<Rightarrow> frame \<Rightarrow> int list list \<Rightarrow> world \<Rightarrow> (exn option \<times> world) option"
where
  "dfs 0 env cur_grid depth w = None"
| "dfs (Suc fuel) env cur_grid depth w =
     (case enter (fst env) (fst (snd env)) cur_grid depth w of
        Leave e w' \<Rightarrow> Some (e, w')
      | Split line_type index candidates w' \<Rightarrow>
          branch fuel env (cur_grid, depth, line_type, index) candidates w')"
| "branch fuel env frame [] w = Some (None, w)"
| "branch fuel env frame (cand # candidates) w =
     (case prepare (fst (snd (snd env))) (snd (snd (snd env))) (fst frame)
             (fst (snd (snd frame))) (snd (snd (snd frame))) cand w of
        Return w' \<Rightarrow> Some (None, w')
      | Raised e w' \<Rightarrow> Some (Some e, w')
      | Recurse new_grid w1 \<Rightarrow>
          (case dfs fuel env new_grid (fst (snd frame) + 1) w1 of
             None \<Rightarrow> None
           | Some (Some e, w') \<Rightarrow> Some (Some e, w')
           | Some (None, w') \<Rightarrow> branch fuel env frame candidates w'))"
  by pat_completeness auto
termination
  by (relation "inv_image (less_than <*lex*> less_than)
        (\<lambda>x. case x of
           Inl (fuel, env, cur_grid, depth, w) \<Rightarrow> (fuel, 0)
         | Inr (fuel, env, frame, candidates, w) \<Rightarrow> (fuel, Suc (length candidates)))")
     auto

record SolveResult =
  status :: string
  solutions :: "int list list list"
  stats :: SolveStats
  message :: string

text \<open>
  \<open>solve_nonogram\<close> on the grid whose rows are at \<open>grid\<close> in \<open>heap\<close>. \<open>Cancelled\<close> is
  caught; any other exception leaves the function.
\<close>

definition solve_nonogram ::
  "nat \<Rightarrow> store \<Rightarrow> nat list \<Rightarrow> nat list list \<Rightarrow> nat list list \<Rightarrow> bool list \<Rightarrow> int \<Rightarrow>
     ((exn + SolveResult) \<times> store) option"
where
  "solve_nonogram fuel heap grid row_clues col_clues polls max_solutions =
     (case item grid 0 of
        Inl e \<Rightarrow> Some (Inl e, heap)
      | Inr row0 \<Rightarrow>
          (case copy_grid heap grid of
             (heap1, start_grid) \<Rightarrow>
               (case dfs fuel (row_clues, col_clues, length (heap ! row0), max_solutions)
                       start_grid 0 (heap1, [], SolveStats_init, polls) of
                  None \<Rightarrow> None
                | Some (Some Cancelled, (heap', found, st, polls')) \<Rightarrow>
                    Some (Inr \<lparr>status = ''cancelled'', solutions = [], stats = st,
                               message = ''Solve cancelled''\<rparr>, heap')
                | Some (Some e, (heap', found, st, polls')) \<Rightarrow> Some (Inl e, heap')
                | Some (None, (heap', found, st, polls')) \<Rightarrow>
                    if found = [] then
                      Some (Inr \<lparr>status = ''unsolved'', solutions = [], stats = st,
                                 message = ''No solution''\<rparr>, heap')
                    else if length found \<ge> 2 then
                      Some (Inr \<lparr>status = ''multiple'', solutions = take 2 found, stats = st,
                                 message = ''Multiple solutions found''\<rparr>, heap')
                    else
                      Some (Inr \<lparr>status = ''solved'', solutions = found, stats = st,
                                 message = ''Unique solution''\<rparr>, heap'))))"


subsection \<open>The store\<close>

lemma length_store_grid [simp]: "length (store_grid heap refs g) = length heap"
proof -
  have "length (fold (\<lambda>(a, row) h. h[a := row]) ps heap) = length heap" for ps
    by (induction ps arbitrary: heap) (auto split: prod.splits)
  then show ?thesis by (simp add: store_grid_def)
qed

lemma store_grid_Nil [simp]: "store_grid heap [] g = heap" "store_grid heap refs [] = heap"
  by (simp_all add: store_grid_def)

lemma store_grid_Cons [simp]:
  "store_grid heap (a # refs) (row # g) = store_grid (heap[a := row]) refs g"
  by (simp add: store_grid_def)

lemma nth_store_grid_other:
  "a \<notin> set refs \<Longrightarrow> store_grid heap refs g ! a = heap ! a"
proof (induction refs arbitrary: heap g)
  case Nil
  then show ?case by simp
next
  case (Cons b refs)
  then show ?case by (cases g) auto
qed

lemma nth_store_grid:
  "distinct refs \<Longrightarrow> \<forall>a\<in>set refs. a < length heap \<Longrightarrow> length g = length refs \<Longrightarrow>
     i < length refs \<Longrightarrow> store_grid heap refs g ! (refs ! i) = g ! i"
proof (induction refs arbitrary: heap g i)
  case Nil
  then show ?case by simp
next
  case (Cons a refs)
  then obtain row gs where g: "g = row # gs" by (cases g) auto
  show ?case
  proof (cases i)
    case 0
    then show ?thesis using Cons.prems g by (simp add: nth_store_grid_other)
  next
    case (Suc j)
    then show ?thesis using Cons.prems g Cons.IH[of "heap[a := row]" gs j] by simp
  qed
qed

lemma load_store_grid:
  "distinct refs \<Longrightarrow> \<forall>a\<in>set refs. a < length heap \<Longrightarrow> length g = length refs \<Longrightarrow>
     load_grid (store_grid heap refs g) refs = g"
  unfolding load_grid_def by (rule nth_equalityI) (auto simp: nth_store_grid)

lemma load_grid_frame:
  "\<forall>a\<in>set refs. heap' ! a = heap ! a \<Longrightarrow> load_grid heap' refs = load_grid heap refs"
  by (simp add: load_grid_def)

lemma copy_grid_facts:
  assumes "copy_grid heap refs = (heap1, new_grid)"
  shows "length heap1 = length heap + length refs"
    and "a < length heap \<Longrightarrow> heap1 ! a = heap ! a"
    and "distinct new_grid"
    and "b \<in> set new_grid \<Longrightarrow> length heap \<le> b \<and> b < length heap1"
    and "length new_grid = length refs"
    and "load_grid heap1 new_grid = load_grid heap refs"
proof -
  from assms have h: "heap1 = heap @ load_grid heap refs"
    and n: "new_grid = [length heap..<length heap + length refs]"
    by (auto simp: copy_grid_def)
  show "length heap1 = length heap + length refs" by (simp add: h load_grid_def)
  show "a < length heap \<Longrightarrow> heap1 ! a = heap ! a" by (simp add: h nth_append)
  show "distinct new_grid" by (simp add: n)
  show "b \<in> set new_grid \<Longrightarrow> length heap \<le> b \<and> b < length heap1"
    by (auto simp: n h load_grid_def)
  show "length new_grid = length refs" by (simp add: n)
  show "load_grid heap1 new_grid = load_grid heap refs"
    unfolding n h load_grid_def by (rule nth_equalityI) (auto simp: nth_append)
qed

subsection \<open>The search writes into its own rows only\<close>

lemma enter_frame:
  assumes "enter row_clues col_clues cur_grid depth (heap, sols, st, ps) = nd"
    and "nd = Leave e (heap', rest) \<or> nd = Split line_type index candidates (heap', rest)"
  shows "length heap' = length heap \<and> (\<forall>a. a \<notin> set cur_grid \<longrightarrow> heap' ! a = heap ! a)"
  using assms
  by (auto simp: enter_def Let_def nth_store_grid_other
           split: sum.splits prod.splits if_splits)

lemma prepare_frame:
  assumes "prepare width max_solutions cur_grid line_type index cand (heap, rest) = at"
  shows "at = Return (heap', rest') \<Longrightarrow>
           length heap \<le> length heap' \<and> (\<forall>a<length heap. heap' ! a = heap ! a)"
    and "at = Raised e (heap', rest') \<Longrightarrow>
           length heap \<le> length heap' \<and> (\<forall>a<length heap. heap' ! a = heap ! a)"
    and "at = Recurse new_grid (heap', rest') \<Longrightarrow>
           length heap \<le> length heap' \<and> (\<forall>a<length heap. heap' ! a = heap ! a) \<and>
           (\<forall>b\<in>set new_grid. length heap \<le> b)"
proof -
  obtain sols st ps where rest: "rest = (sols, st, ps)" by (cases rest) auto
  obtain heap1 new where c: "copy_grid heap cur_grid = (heap1, new)"
    by (cases "copy_grid heap cur_grid")
  note f = copy_grid_facts[OF c]
  show "at = Return (heap', rest') \<Longrightarrow>
           length heap \<le> length heap' \<and> (\<forall>a<length heap. heap' ! a = heap ! a)"
    using assms c rest by (auto simp: prepare_def split: if_splits sum.splits)
  show "at = Raised e (heap', rest') \<Longrightarrow>
           length heap \<le> length heap' \<and> (\<forall>a<length heap. heap' ! a = heap ! a)"
    using assms c rest f(1,2) by (auto simp: prepare_def split: if_splits sum.splits)
  assume "at = Recurse new_grid (heap', rest')"
  then obtain filled where "new_grid = new" and h': "heap' = store_grid heap1 new filled"
    using assms c rest by (auto simp: prepare_def split: if_splits sum.splits)
  moreover have "a \<notin> set new" if "a < length heap" for a
    using f(4)[of a] that by auto
  ultimately show "length heap \<le> length heap' \<and> (\<forall>a<length heap. heap' ! a = heap ! a) \<and>
           (\<forall>b\<in>set new_grid. length heap \<le> b)"
    using f(1,2,4) by (auto simp: nth_store_grid_other)
qed

lemma dfs_frame:
  "dfs fuel env cur_grid depth (heap, rest) = Some (e, (heap', rest')) \<Longrightarrow>
     length heap \<le> length heap' \<and>
     (\<forall>a<length heap. a \<notin> set cur_grid \<longrightarrow> heap' ! a = heap ! a)"
  and branch_frame:
  "branch fuel env frame candidates (heap, rest) = Some (e, (heap', rest')) \<Longrightarrow>
     length heap \<le> length heap' \<and> (\<forall>a<length heap. heap' ! a = heap ! a)"
proof (induction fuel env cur_grid depth "(heap, rest)" and fuel env frame candidates "(heap, rest)"
       arbitrary: heap rest e heap' rest' and heap rest e heap' rest' rule: dfs_branch.induct)
  case (1 env cur_grid depth)
  then show ?case by simp
next
  case (2 fuel env cur_grid depth)
  obtain sols st ps where rest: "rest = (sols, st, ps)" by (cases rest) auto
  show ?case
  proof (cases "enter (fst env) (fst (snd env)) cur_grid depth (heap, rest)")
    case (Leave e1 w1)
    then have "e1 = e" "w1 = (heap', rest')" using "2.prems" by auto
    with enter_frame[OF Leave[unfolded rest], of e heap' rest'] show ?thesis by auto
  next
    case (Split lt idx cands w1)
    obtain h1 r1 where w1: "w1 = (h1, r1)" by (cases w1)
    from enter_frame[OF Split[unfolded rest], of _ h1 r1 lt idx cands] w1
    have f1: "length h1 = length heap" "\<forall>a. a \<notin> set cur_grid \<longrightarrow> h1 ! a = heap ! a"
      by auto
    have "branch fuel env (cur_grid, depth, lt, idx) cands (h1, r1) = Some (e, (heap', rest'))"
      using "2.prems" Split w1 by simp
    from "2.hyps"[OF Split[unfolded w1] this] f1 show ?thesis by auto
  qed
next
  case (3 fuel env frame)
  then show ?case by simp
next
  case (4 fuel env frame cand candidates)
  let ?at = "prepare (fst (snd (snd env))) (snd (snd (snd env))) (fst frame)
             (fst (snd (snd frame))) (snd (snd (snd frame))) cand (heap, rest)"
  show ?case
  proof (cases ?at)
    case (Return w1)
    then have "?at = Return (heap', rest')" using "4.prems" by simp
    from prepare_frame(1)[OF refl this] show ?thesis .
  next
    case (Raised e1 w1)
    then have "?at = Raised e1 (heap', rest')" using "4.prems" by simp
    from prepare_frame(2)[OF refl this] show ?thesis .
  next
    case (Recurse new w1)
    obtain h1 r1 where w1: "w1 = (h1, r1)" by (cases w1)
    from prepare_frame(3)[OF refl Recurse[unfolded w1]]
    have f1: "length heap \<le> length h1" "\<forall>a<length heap. h1 ! a = heap ! a"
      "\<forall>b\<in>set new. length heap \<le> b"
      by auto
    show ?thesis
    proof (cases "dfs fuel env new (fst (snd frame) + 1) (h1, r1)")
      case None
      then show ?thesis using "4.prems" Recurse w1 by simp
    next
      case (Some r)
      obtain e2 h2 r2 where r: "r = (e2, (h2, r2))" by (cases r) auto
      from "4.hyps"(1)[OF Recurse[unfolded w1] Some[unfolded r]]
      have f2: "length h1 \<le> length h2" "\<forall>a<length h1. a \<notin> set new \<longrightarrow> h2 ! a = h1 ! a"
        by auto
      have f12: "length heap \<le> length h2" "\<forall>a<length heap. h2 ! a = heap ! a"
        using f1 f2 by (auto simp: not_le[symmetric])
      show ?thesis
      proof (cases e2)
        case None
        then have "branch fuel env frame candidates (h2, r2) = Some (e, (heap', rest'))"
          using "4.prems" Recurse w1 Some r by simp
        from "4.hyps"(2)[OF Recurse[unfolded w1] Some[unfolded r] refl None this] f12
        show ?thesis by auto
      next
        case (Some e3)
        then have "heap' = h2" using "4.prems" Recurse w1 \<open>dfs _ _ _ _ _ = Some r\<close> r by simp
        with f12 show ?thesis by simp
      qed
    qed
  qed
qed


subsection \<open>Well-formed puzzles raise no \<open>IndexError\<close>\<close>

definition rect :: "int list list \<Rightarrow> nat \<Rightarrow> nat \<Rightarrow> bool" where
  "rect g h w \<longleftrightarrow> length g = h \<and> (\<forall>r<h. length (g ! r) = w)"

lemma well_formed_rect:
  "well_formed g row_clues col_clues \<Longrightarrow> rect g (length g) (length (g ! 0))"
  unfolding well_formed_def rect_def by (metis nth_mem)

lemma well_formedI:
  "rect g h w \<Longrightarrow> 0 < h \<Longrightarrow> length row_clues = h \<Longrightarrow> length col_clues = w \<Longrightarrow>
     well_formed g row_clues col_clues"
  unfolding well_formed_def rect_def by (metis in_set_conv_nth length_greater_0_conv)

lemma determines_rect: "determines g g' \<Longrightarrow> rect g h w \<Longrightarrow> rect g' h w"
  using determines_shape[of g g'] by (simp add: rect_def)

lemma all_same_total:
  "\<forall>cand\<in>set cands. i < length cand \<Longrightarrow> \<exists>b. all_same cands i v = Inr b"
  by (induction cands) (auto simp: item_def)

lemma intersect_candidates_total:
  assumes "\<forall>cand\<in>set cands. length cand = n"
  shows "\<exists>intersection. intersect_candidates cands = Inr intersection"
proof (cases cands)
  case Nil
  then show ?thesis by (simp add: intersect_candidates_def)
next
  case (Cons first others)
  have "\<exists>s'. for_each
            (\<lambda>i result.
               case all_same others i (first ! i) of
                 Inl e \<Rightarrow> Inl e
               | Inr same \<Rightarrow> Inr (result[i := (if same then first ! i else UNKNOWN)]))
            [0..<length first] (replicate (length first) UNKNOWN) = Inr s'"
  proof (rule for_each_total)
    fix i s
    assume "i \<in> set [0..<length first]"
    then have "\<forall>cand\<in>set others. i < length cand" using assms Cons by auto
    from all_same_total[OF this, of "first ! i"]
    show "\<exists>s'. (case all_same others i (first ! i) of
                 Inl e \<Rightarrow> Inl e
               | Inr same \<Rightarrow> Inr (s[i := (if same then first ! i else UNKNOWN)])) = Inr s'"
      by auto
  qed
  then show ?thesis using Cons by (simp add: intersect_candidates_def)
qed

lemma set_cell_shape [simp]:
  "length (set_cell g r c v) = length g" "length (set_cell g r c v ! a) = length (g ! a)"
proof -
  show "length (set_cell g r c v) = length g" by (simp add: set_cell_def)
  show "length (set_cell g r c v ! a) = length (g ! a)"
    by (cases "a = r"; cases "r < length g") (simp_all add: set_cell_def list_update_beyond)
qed

lemma apply_line_no_raise:
  assumes "\<forall>j<length cells. k + j < length intersection"
    and "\<forall>rc\<in>set cells. fst rc < length g \<and> snd rc < length (g ! fst rc)"
  shows "fst (apply_line mark intersection k cells (g, m)) = Normal"
  using assms
proof (induction cells arbitrary: k g m)
  case Nil
  then show ?case by simp
next
  case (Cons rc cells)
  obtain r c where rc: "rc = (r, c)" by (cases rc)
  have k: "item intersection k = Inr (intersection ! k)"
    using Cons.prems(1)[rule_format, of 0] by (simp add: item_def)
  have cell: "get_cell g r c = Inr (g ! r ! c)"
    using Cons.prems(2) rc by (simp add: get_cell_Inr)
  have tail: "\<forall>j<length cells. Suc k + j < length intersection"
  proof (intro allI impI)
    fix j assume "j < length cells"
    then show "Suc k + j < length intersection"
      using Cons.prems(1)[rule_format, of "Suc j"] by simp
  qed
  have in_range: "\<forall>rc\<in>set cells. fst rc < length g' \<and> snd rc < length (g' ! fst rc)"
    if "g' = g \<or> g' = set_cell g r c v" for g' v
    using that Cons.prems(2) by auto
  have ih: "fst (apply_line mark intersection (Suc k) cells (g', m')) = Normal"
    if "g' = g \<or> g' = set_cell g r c v" for g' m' v
    by (rule Cons.IH[OF tail in_range[OF that]])
  have "fst (apply_line mark intersection (Suc k) cells (g, m)) = Normal"
    by (rule ih) simp
  moreover have "fst (apply_line mark intersection (Suc k) cells
       (set_cell g r c (intersection ! k), mark m)) = Normal"
    by (rule ih) (rule disjI2, rule refl)
  ultimately show ?case
    using rc k cell by simp
qed

lemma reduce_line_no_raise:
  assumes "len \<le> length ls" "length cells = len"
    and "\<forall>rc\<in>set cells. fst rc < length g \<and> snd rc < length (g ! fst rc)"
  shows "fst (reduce_line mark len (Inr ls) (Inr bs) cells (g, m)) \<noteq> Raise e"
proof -
  obtain cands where lc: "line_candidates len bs ls = Inr cands"
    using line_candidates_total[OF assms(1)] by blast
  show ?thesis
  proof (cases "cands = []")
    case True
    then show ?thesis using lc by (simp add: reduce_line_def)
  next
    case False
    have same: "\<forall>cand\<in>set cands. length cand = len"
      using line_candidates_cells(1)[OF lc] by simp
    then obtain intersection where ic: "intersect_candidates cands = Inr intersection"
      using intersect_candidates_total by blast
    from False obtain first others where c: "cands = first # others" by (cases cands) auto
    have "length intersection = len"
      using intersect_candidates_first(1)[OF ic[unfolded c]] same c by simp
    then have "fst (apply_line mark intersection 0 cells (g, m)) = Normal"
      using assms(2,3) by (intro apply_line_no_raise) auto
    then show ?thesis using lc False ic by (simp add: reduce_line_def)
  qed
qed

lemma reduce_rows_no_raise:
  assumes "rect g h w" "h \<le> length row_clues" "\<forall>r\<in>set rs. r < h"
  shows "fst (reduce_rows mark row_clues w rs (g, m)) \<noteq> Raise e"
  using assms
proof (induction rs arbitrary: g m)
  case Nil
  then show ?case by simp
next
  case (Cons r rs)
  have r: "r < h" using Cons.prems(3) by simp
  then have it: "item g r = Inr (g ! r)" "item row_clues r = Inr (row_clues ! r)"
    and len: "length (g ! r) = w"
    using Cons.prems(1,2) by (auto simp: rect_def item_def)
  obtain fl1 g1 m1 where one:
    "reduce_line mark w (Inr (g ! r)) (Inr (row_clues ! r)) (map (\<lambda>c. (r, c)) [0..<w]) (g, m)
       = (fl1, g1, m1)"
    by (metis prod_cases3)
  have nr: "fl1 \<noteq> Raise e"
    using reduce_line_no_raise[of w "g ! r" "map (\<lambda>c. (r, c)) [0..<w]" g mark
        "row_clues ! r" m e] one len r Cons.prems(1)
    by (auto simp: rect_def)
  have d: "determines g g1"
    using reduce_line_determines[OF one] len
    by (auto simp: distinct_map inj_on_def get_cell_Inr)
  show ?case
  proof (cases "fl1 = Normal")
    case True
    then show ?thesis
      using Cons.IH[OF determines_rect[OF d Cons.prems(1)] Cons.prems(2), of m1] Cons.prems(3)
        one it by simp
  next
    case False
    then show ?thesis using one it nr by (cases fl1) auto
  qed
qed

lemma reduce_cols_no_raise:
  assumes "rect g h w" "w \<le> length col_clues" "\<forall>c\<in>set cs. c < w"
  shows "fst (reduce_cols mark col_clues h cs (g, m)) \<noteq> Raise e"
  using assms
proof (induction cs arbitrary: g m)
  case Nil
  then show ?case by simp
next
  case (Cons c cs)
  have c: "c < w" using Cons.prems(3) by simp
  have col: "column g c [0..<h] = Inr (map (\<lambda>r. g ! r ! c) [0..<h])"
    by (rule column_total) (use Cons.prems(1) c in \<open>auto simp: rect_def\<close>)
  have it: "item col_clues c = Inr (col_clues ! c)"
    using Cons.prems(2) c by (simp add: item_def)
  obtain fl1 g1 m1 where one:
    "reduce_line mark h (Inr (map (\<lambda>r. g ! r ! c) [0..<h])) (Inr (col_clues ! c))
       (map (\<lambda>r. (r, c)) [0..<h]) (g, m) = (fl1, g1, m1)"
    by (metis prod_cases3)
  have nr: "fl1 \<noteq> Raise e"
    using reduce_line_no_raise[of h "map (\<lambda>r. g ! r ! c) [0..<h]" "map (\<lambda>r. (r, c)) [0..<h]"
        g mark "col_clues ! c" m e] one c Cons.prems(1)
    by (auto simp: rect_def)
  have "determines g g1 \<and> (\<exists>n. m1 = (mark ^^ n) m \<and> undetermined g1 + n = undetermined g)"
  proof (rule reduce_line_determines[OF one])
    show "distinct (map (\<lambda>r. (r, c)) [0..<h])" by (simp add: distinct_map inj_on_def)
    show "length (map (\<lambda>r. (r, c)) [0..<h]) = h" by simp
    fix ls j x
    assume "Inr (map (\<lambda>r. g ! r ! c) [0..<h]) = (Inr ls :: exn + int list)" "j < h"
      "get_cell g (fst (map (\<lambda>r. (r, c)) [0..<h] ! j))
         (snd (map (\<lambda>r. (r, c)) [0..<h] ! j)) = Inr x"
    then show "j < length ls \<and> x = ls ! j" by (auto simp: get_cell_Inr)
  qed
  then have d: "determines g g1" by simp
  show ?case
  proof (cases "fl1 = Normal")
    case True
    then show ?thesis
      using Cons.IH[OF determines_rect[OF d Cons.prems(1)] Cons.prems(2), of m1] Cons.prems(3)
        one it col by simp
  next
    case False
    then show ?thesis using one it col nr by (cases fl1) auto
  qed
qed

lemma sweep_no_raise:
  assumes "rect g h w" "h \<le> length row_clues" "w \<le> length col_clues"
  shows "fst (sweep mark row_clues col_clues h w (g, m)) \<noteq> Raise e"
proof -
  obtain fl1 g1 m1 where rows: "reduce_rows mark row_clues w [0..<h] (g, m) = (fl1, g1, m1)"
    by (metis prod_cases3)
  have nr: "fl1 \<noteq> Raise e"
    using reduce_rows_no_raise[OF assms(1,2), of "[0..<h]" mark m e] rows by simp
  have d: "determines g g1" using reduce_rows_determines[OF rows] by simp
  show ?thesis
  proof (cases "fl1 = Normal")
    case True
    then show ?thesis
      using reduce_cols_no_raise[OF determines_rect[OF d assms(1)] assms(3), of "[0..<w]" mark m1 e]
        rows by (simp add: sweep_def)
  next
    case False
    then show ?thesis using rows nr by (cases fl1) (auto simp: sweep_def)
  qed
qed

lemma propagate_loop_no_index_error:
  assumes "rect grid h w" "h \<le> length row_clues" "w \<le> length col_clues"
    and "propagate_loop row_clues col_clues h w st0 grid polls = (Inl e, grid', polls')"
  shows "e = Cancelled"
  using assms
proof (induction row_clues col_clues h w st0 grid polls rule: propagate_loop.induct)
  case (1 row_clues col_clues height width st0 grid polls)
  show ?case
  proof (cases "check_cancel polls")
    case (Inl e1)
    then have "e1 = Cancelled" by (auto simp: check_cancel_def split: list.splits if_splits)
    then show ?thesis using "1.prems"(4) Inl by (subst (asm) propagate_loop.simps) simp
  next
    case (Inr ps)
    obtain fl g1 changed where sw:
      "sweep (\<lambda>_. True) row_clues col_clues height width (grid, False) = (fl, g1, changed)"
      by (metis prod_cases3)
    have nr: "fl \<noteq> Raise e"
      using sweep_no_raise[OF "1.prems"(1-3), of "\<lambda>_. True" False e] sw by simp
    have d1: "determines grid g1" using sweep_determines[OF sw] by simp
    show ?thesis
    proof (cases "fl = Normal \<and> changed")
      case True
      then have "propagate_loop row_clues col_clues height width
                   (st0\<lparr>iterations := iterations st0 + 1, fixed_cells := count_fixed g1\<rparr>)
                   g1 ps = (Inl e, grid', polls')"
        using "1.prems"(4) Inr sw by (subst (asm) propagate_loop.simps) simp
      from "1.IH"[OF Inr sw[symmetric] _ refl _ determines_rect[OF d1 "1.prems"(1)]
          "1.prems"(2,3) this] True
      show ?thesis by simp
    next
      case False
      then show ?thesis
        using "1.prems"(4) Inr sw nr
        by (subst (asm) propagate_loop.simps) (cases fl; auto split: if_splits)
    qed
  qed
qed

lemma propagate_no_index_error:
  assumes "well_formed grid row_clues col_clues"
    and "propagate grid row_clues col_clues polls = (Inl e, grid', polls')"
  shows "e = Cancelled"
proof -
  from assms(1) have ne: "grid \<noteq> []" and rc: "length row_clues = length grid"
    and cc: "length col_clues = length (grid ! 0)"
    unfolding well_formed_def by blast+
  have row0: "item grid 0 = Inr (grid ! 0)" using ne by (simp add: item_def)
  from assms(2) row0 have "propagate_loop row_clues col_clues (length grid) (length (grid ! 0))
      SolveStats_init grid polls = (Inl e, grid', polls')"
    by (simp add: propagate_def)
  from propagate_loop_no_index_error[OF well_formed_rect[OF assms(1)] _ _ this] rc cc
  show ?thesis by simp
qed

lemma determines_well_formed:
  assumes "determines g g'" "well_formed g row_clues col_clues"
  shows "well_formed g' row_clues col_clues" "length (g' ! 0) = length (g ! 0)"
proof -
  from assms(2) have ne: "g \<noteq> []" and rc: "length row_clues = length g"
    and cc: "length col_clues = length (g ! 0)"
    unfolding well_formed_def by blast+
  note sh = determines_shape[OF assms(1)]
  show "length (g' ! 0) = length (g ! 0)" using sh by simp
  show "well_formed g' row_clues col_clues"
    by (rule well_formedI[OF determines_rect[OF assms(1) well_formed_rect[OF assms(2)]]])
       (use ne rc cc sh in auto)
qed


subsection \<open>Branching fills a line that held an unknown cell\<close>

lemma selected_line:
  assumes wf: "well_formed g row_clues col_clues"
    and sel: "best_branch_line g row_clues col_clues = Inr (t, i, cands)" and ne: "cands \<noteq> []"
  shows "(t = ''row'' \<and> (\<exists>r<length g. i = int r \<and> UNKNOWN \<in> set (g ! r) \<and>
            cands = candidates_of (length (g ! 0)) (row_clues ! r) (g ! r))) \<or>
         (t = ''col'' \<and> (\<exists>c<length (g ! 0). i = int c \<and> UNKNOWN \<in> set (map (\<lambda>row. row ! c) g) \<and>
            cands = candidates_of (length g) (col_clues ! c) (map (\<lambda>row. row ! c) g)))"
proof -
  let ?ls = "filter branchable (lines_with_unknown g row_clues col_clues)"
  from scan_selects[OF wf] sel have eq: "first_smallest ?ls = (t, i, cands)"
    by (simp add: select_bounded_def)
  have "?ls \<noteq> []"
  proof
    assume "?ls = []"
    then have "first_smallest ?ls = ('''', - 1, [])" by (simp add: first_smallest_def)
    with eq ne show False by simp
  qed
  from first_smallest_in[OF this] eq
  have "(t, i, cands) \<in> set (lines_with_unknown g row_clues col_clues)" by auto
  then show ?thesis
    unfolding lines_with_unknown_def by auto
qed

lemma candidates_of_cells:
  assumes "cand \<in> set (candidates_of L bs ls)" "L \<le> length ls"
  shows "length cand = L" and "UNKNOWN \<notin> set cand"
proof -
  note lc = candidates_of_eq[OF assms(2), of bs]
  show len: "length cand = L" using line_candidates_cells(1)[OF lc assms(1)] .
  show "UNKNOWN \<notin> set cand"
  proof
    assume "UNKNOWN \<in> set cand"
    then obtain i where "i < length cand" "cand ! i = UNKNOWN" by (auto simp: in_set_conv_nth)
    with line_candidates_cells(2)[OF lc assms(1), of i] len show False by auto
  qed
qed

text \<open>The two loops that write a candidate into the new grid, as one loop over the
  cells \<open>pos k\<close> of a line.\<close>

definition write_line ::
  "int list \<Rightarrow> (nat \<Rightarrow> nat \<times> nat) \<Rightarrow> nat list \<Rightarrow> int list list \<Rightarrow> exn + int list list"
where
  "write_line cand pos ks g =
     for_each
       (\<lambda>k g. case item cand k of Inl e \<Rightarrow> Inl e
               | Inr v \<Rightarrow> put_cell g (fst (pos k)) (snd (pos k)) v)
       ks g"

lemma write_row_line:
  "write_row cand index width g = write_line cand (\<lambda>c. (index, c)) [0..<width] g"
  by (simp add: write_row_def write_line_def cong: sum.case_cong)

lemma write_col_line:
  "write_col cand index g = write_line cand (\<lambda>r. (r, index)) [0..<length g] g"
  by (simp add: write_col_def write_line_def cong: sum.case_cong)

lemma nth_set_cell_other:
  "(r', c') \<noteq> (r, c) \<Longrightarrow> set_cell g r c v ! r' ! c' = g ! r' ! c'"
  by (cases "r' = r"; cases "r < length g")
     (auto simp: set_cell_def list_update_beyond)

lemma write_line_effect:
  assumes "distinct (map pos ks)"
    and "\<forall>k\<in>set ks. k < length cand \<and> cand ! k \<noteq> UNKNOWN \<and>
           fst (pos k) < length g \<and> snd (pos k) < length (g ! fst (pos k))"
  shows "\<exists>g'. write_line cand pos ks g = Inr g' \<and> length g' = length g \<and>
           (\<forall>r. length (g' ! r) = length (g ! r)) \<and>
           unknown_count g' \<le> unknown_count g \<and>
           ((\<exists>k\<in>set ks. g ! fst (pos k) ! snd (pos k) = UNKNOWN) \<longrightarrow>
              unknown_count g' < unknown_count g)"
  using assms
proof (induction ks arbitrary: g)
  case Nil
  then show ?case by (simp add: write_line_def)
next
  case (Cons k ks)
  obtain r c where rc: "pos k = (r, c)" by (cases "pos k")
  let ?v = "cand ! k"
  let ?g1 = "set_cell g r c ?v"
  from Cons.prems(2) rc have k: "k < length cand" "?v \<noteq> UNKNOWN" "r < length g"
    "c < length (g ! r)"
    by auto
  have cnt: "unknown_count ?g1 + (if g ! r ! c = UNKNOWN then 1 else 0) = unknown_count g"
    using count_where_set_cell[OF k(3,4), of "\<lambda>v. v = UNKNOWN" ?v] k(2)
    by (simp add: unknown_count_def)
  have step: "write_line cand pos (k # ks) g = write_line cand pos ks ?g1"
    using k rc by (simp add: write_line_def item_def put_cell_def)
  have other: "?g1 ! fst (pos k') ! snd (pos k') = g ! fst (pos k') ! snd (pos k')"
    if "k' \<in> set ks" for k'
  proof -
    have "pos k' \<noteq> pos k" using Cons.prems(1) that by (metis distinct.simps(2) image_eqI list.simps(9) set_map)
    then show ?thesis using rc by (intro nth_set_cell_other) (cases "pos k'", auto)
  qed
  have "\<exists>g'. write_line cand pos ks ?g1 = Inr g' \<and> length g' = length ?g1 \<and>
           (\<forall>r. length (g' ! r) = length (?g1 ! r)) \<and>
           unknown_count g' \<le> unknown_count ?g1 \<and>
           ((\<exists>k\<in>set ks. ?g1 ! fst (pos k) ! snd (pos k) = UNKNOWN) \<longrightarrow>
              unknown_count g' < unknown_count ?g1)"
    by (rule Cons.IH) (use Cons.prems in auto)
  then obtain g' where g': "write_line cand pos ks ?g1 = Inr g'" "length g' = length g"
    "\<forall>r. length (g' ! r) = length (g ! r)" "unknown_count g' \<le> unknown_count ?g1"
    "(\<exists>k\<in>set ks. ?g1 ! fst (pos k) ! snd (pos k) = UNKNOWN) \<longrightarrow>
              unknown_count g' < unknown_count ?g1"
    by auto
  have "unknown_count g' < unknown_count g"
    if "\<exists>k'\<in>set (k # ks). g ! fst (pos k') ! snd (pos k') = UNKNOWN"
  proof (cases "g ! r ! c = UNKNOWN")
    case True
    then show ?thesis using cnt g'(4) by simp
  next
    case False
    with that rc obtain k' where "k' \<in> set ks" "g ! fst (pos k') ! snd (pos k') = UNKNOWN"
      by auto
    with other[of k'] g'(5) have "unknown_count g' < unknown_count ?g1" by auto
    then show ?thesis using cnt by simp
  qed
  moreover have "unknown_count g' \<le> unknown_count g" using cnt g'(4) by simp
  ultimately show ?case using step g'(1,2,3) by auto
qed

text \<open>
  \<open>fills g width line_type index cand\<close>: writing \<open>cand\<close> into the line \<open>index\<close> of a
  copy of \<open>g\<close> raises nothing, keeps the shape and leaves fewer unknown cells.
\<close>

definition fills :: "int list list \<Rightarrow> nat \<Rightarrow> string \<Rightarrow> int \<Rightarrow> int list \<Rightarrow> bool" where
  "fills g width line_type index cand \<longleftrightarrow>
     (\<exists>g'. (if line_type = ''row'' then write_row cand (nat index) width g
            else write_col cand (nat index) g) = Inr g' \<and>
           length g' = length g \<and> (\<forall>r. length (g' ! r) = length (g ! r)) \<and>
           unknown_count g' < unknown_count g)"

lemma selected_line_fills:
  assumes wf: "well_formed g row_clues col_clues"
    and sel: "best_branch_line g row_clues col_clues = Inr (t, i, cands)"
    and cand: "cand \<in> set cands"
  shows "fills g (length (g ! 0)) t i cand"
proof -
  let ?h = "length g" and ?w = "length (g ! 0)"
  from wf have rect: "rect g ?h ?w" by (rule well_formed_rect)
  from cand have ne: "cands \<noteq> []" by auto
  from selected_line[OF wf sel ne] show ?thesis
  proof (elim disjE conjE exE)
    fix r
    assume t: "t = ''row''" and r: "r < ?h" "i = int r" "UNKNOWN \<in> set (g ! r)"
      and cs: "cands = candidates_of ?w (row_clues ! r) (g ! r)"
    have lr: "length (g ! r) = ?w" using rect r(1) by (simp add: rect_def)
    from candidates_of_cells[of cand ?w "row_clues ! r" "g ! r"] cand cs lr
    have c: "length cand = ?w" "UNKNOWN \<notin> set cand" by auto
    have cn: "\<forall>k<length cand. cand ! k \<noteq> UNKNOWN" using c(2) by (metis nth_mem)
    from r(3) obtain c0 where c0: "c0 < ?w" "g ! r ! c0 = UNKNOWN"
      using lr by (auto simp: in_set_conv_nth)
    have "\<exists>g'. write_line cand (\<lambda>c. (r, c)) [0..<?w] g = Inr g' \<and> length g' = length g \<and>
           (\<forall>r. length (g' ! r) = length (g ! r)) \<and>
           unknown_count g' \<le> unknown_count g \<and>
           ((\<exists>k\<in>set [0..<?w]. g ! fst (r, k) ! snd (r, k) = UNKNOWN) \<longrightarrow>
              unknown_count g' < unknown_count g)"
      by (rule write_line_effect)
         (use c(1) cn r(1) lr in \<open>auto simp: distinct_map inj_on_def\<close>)
    then show ?thesis
      using c0 t r(2) by (auto simp: fills_def write_row_line)
  next
    fix c
    assume t: "t = ''col''" and c: "c < ?w" "i = int c"
      "UNKNOWN \<in> set (map (\<lambda>row. row ! c) g)"
      and cs: "cands = candidates_of ?h (col_clues ! c) (map (\<lambda>row. row ! c) g)"
    from candidates_of_cells[of cand ?h "col_clues ! c" "map (\<lambda>row. row ! c) g"] cand cs
    have cd: "length cand = ?h" "UNKNOWN \<notin> set cand" by auto
    have cn: "\<forall>k<length cand. cand ! k \<noteq> UNKNOWN" using cd(2) by (metis nth_mem)
    from c(3) obtain r0 where r0: "r0 < ?h" "g ! r0 ! c = UNKNOWN"
      by (auto simp: in_set_conv_nth)
    have "\<exists>g'. write_line cand (\<lambda>r. (r, c)) [0..<?h] g = Inr g' \<and> length g' = length g \<and>
           (\<forall>r. length (g' ! r) = length (g ! r)) \<and>
           unknown_count g' \<le> unknown_count g \<and>
           ((\<exists>k\<in>set [0..<?h]. g ! fst (k, c) ! snd (k, c) = UNKNOWN) \<longrightarrow>
              unknown_count g' < unknown_count g)"
      by (rule write_line_effect)
         (use cd(1) cn c(1) rect in \<open>auto simp: distinct_map inj_on_def rect_def\<close>)
    then show ?thesis
      using r0 t c(2) by (auto simp: fills_def write_col_line)
  qed
qed



subsection \<open>The search on a well-formed puzzle\<close>

text \<open>
  \<open>good heap cur \<dots>\<close>: the rows of \<open>cur\<close> are distinct objects of the store and the grid
  they hold is well-formed, with rows of \<open>width\<close> cells.
\<close>

definition good ::
  "store \<Rightarrow> nat list \<Rightarrow> nat list list \<Rightarrow> nat list list \<Rightarrow> nat \<Rightarrow> bool"
where
  "good heap cur row_clues col_clues width \<longleftrightarrow>
     distinct cur \<and> (\<forall>a\<in>set cur. a < length heap) \<and>
     well_formed (load_grid heap cur) row_clues col_clues \<and>
     length (load_grid heap cur ! 0) = width"

lemma good_frame:
  assumes "good heap cur row_clues col_clues width"
    and "\<forall>a\<in>set cur. heap' ! a = heap ! a" "length heap \<le> length heap'"
  shows "good heap' cur row_clues col_clues width"
    and "load_grid heap' cur = load_grid heap cur"
proof -
  show l: "load_grid heap' cur = load_grid heap cur"
    using assms(2) by (rule load_grid_frame)
  show "good heap' cur row_clues col_clues width"
    using assms(1,3) l unfolding good_def by auto
qed

lemma same_shape_well_formed:
  assumes "well_formed g row_clues col_clues"
    and "length g' = length g" "\<forall>r. length (g' ! r) = length (g ! r)"
  shows "well_formed g' row_clues col_clues"
proof -
  from assms(1) have ne: "g \<noteq> []" and rc: "length row_clues = length g"
    and cc: "length col_clues = length (g ! 0)"
    unfolding well_formed_def by blast+
  have "rect g' (length g) (length (g ! 0))"
    using well_formed_rect[OF assms(1)] assms(2,3) by (simp add: rect_def)
  then show ?thesis
    by (rule well_formedI) (use ne rc cc in auto)
qed

lemma check_cancel_Inl: "check_cancel polls = Inl e \<Longrightarrow> e = Cancelled"
  by (auto simp: check_cancel_def split: list.splits if_splits)

lemma enter_good:
  assumes g: "good heap cur row_clues col_clues width"
    and en: "enter row_clues col_clues cur depth (heap, sols, st, ps) = nd"
  shows "(\<exists>e heap' sols' st' ps'. nd = Leave e (heap', sols', st', ps') \<and>
            (e = None \<or> e = Some Cancelled) \<and> length sols' \<le> Suc (length sols) \<and>
            max_depth st' \<le> max (max_depth st) depth) \<or>
         (\<exists>lt idx cands heap' st' ps'. nd = Split lt idx cands (heap', sols, st', ps') \<and>
            good heap' cur row_clues col_clues width \<and>
            max_depth st' = max (max_depth st) depth \<and>
            unknown_count (load_grid heap' cur) \<le> unknown_count (load_grid heap cur) \<and>
            (\<forall>cand\<in>set cands. fills (load_grid heap' cur) width lt idx cand))"
proof (cases "check_cancel ps")
  case (Inl e)
  with check_cancel_Inl[OF Inl] en show ?thesis by (auto simp: enter_def)
next
  case (Inr ps1)
  let ?g = "load_grid heap cur"
  from g have dist: "distinct cur" and valid: "\<forall>a\<in>set cur. a < length heap"
    and wf: "well_formed ?g row_clues col_clues" and w: "length (?g ! 0) = width"
    by (auto simp: good_def)
  obtain res g1 ps2 where pr: "propagate ?g row_clues col_clues ps1 = (res, g1, ps2)"
    by (metis prod_cases3)
  note d = propagate_determines[OF pr]
  let ?heap1 = "store_grid heap cur g1"
  have len1: "length g1 = length cur"
    using determines_shape[OF d] by (simp add: load_grid_def)
  have l1: "load_grid ?heap1 cur = g1"
    by (rule load_store_grid[OF dist valid len1])
  have wf1: "well_formed g1 row_clues col_clues" and w1: "length (g1 ! 0) = width"
    using determines_well_formed[OF d wf] w by auto
  have good1: "good ?heap1 cur row_clues col_clues width"
    using dist valid wf1 w1 l1 by (simp add: good_def)
  have unk: "unknown_count g1 \<le> unknown_count ?g" by (rule determines_unknown[OF d])
  show ?thesis
  proof (cases res)
    case (Inl e)
    with propagate_no_index_error[OF wf pr[unfolded Inl]] en Inr pr
    show ?thesis by (auto simp: enter_def Let_def)
  next
    case ok: (Inr okp)
    obtain ok pstats where okp: "okp = (ok, pstats)" by (cases okp)
    show ?thesis
    proof (cases "ok \<and> \<not> is_solved g1")
      case False
      then show ?thesis
        using en Inr pr ok okp l1 by (auto simp: enter_def Let_def)
    next
      case True
      obtain t i cands where sel: "best_branch_line g1 row_clues col_clues = Inr (t, i, cands)"
        using scan_selects[OF wf1] by (metis prod_cases3)
      show ?thesis
      proof (cases "cands = []")
        case c: True
        then show ?thesis
          using en Inr pr ok okp l1 True sel by (auto simp: enter_def Let_def)
      next
        case c: False
        have "\<forall>cand\<in>set cands. fills g1 width t i cand"
          using selected_line_fills[OF wf1 sel] w1 by auto
        then show ?thesis
          using en Inr pr ok okp l1 True sel c good1 unk
          by (auto simp: enter_def Let_def)
      qed
    qed
  qed
qed

lemma prepare_good:
  assumes g: "good heap cur row_clues col_clues width"
    and f: "fills (load_grid heap cur) width lt idx cand"
    and pr: "prepare width cap cur lt idx cand (heap, sols, st, ps) = at"
  shows "(cap \<le> int (length sols) \<and> at = Return (heap, sols, st, ps)) \<or>
         (int (length sols) < cap \<and>
          (\<exists>new heap'. at = Recurse new (heap', sols, st, ps) \<and>
             good heap' new row_clues col_clues width \<and>
             unknown_count (load_grid heap' new) < unknown_count (load_grid heap cur)))"
proof (cases "cap \<le> int (length sols)")
  case True
  then show ?thesis using pr by (simp add: prepare_def)
next
  case False
  let ?g = "load_grid heap cur"
  from g have wf: "well_formed ?g row_clues col_clues" and w: "length (?g ! 0) = width"
    by (auto simp: good_def)
  obtain heap1 new where c: "copy_grid heap cur = (heap1, new)" by (cases "copy_grid heap cur")
  note cf = copy_grid_facts[OF c]
  from f[unfolded fills_def] obtain g2 where
    wr0: "(if lt = ''row'' then write_row cand (nat idx) width ?g
            else write_col cand (nat idx) ?g) = Inr g2"
    and sh: "length g2 = length ?g" "\<forall>r. length (g2 ! r) = length (?g ! r)"
    and less: "unknown_count g2 < unknown_count ?g"
    by auto
  have wr: "(if lt = ''row'' then write_row cand (nat idx) width (load_grid heap1 new)
            else write_col cand (nat idx) (load_grid heap1 new)) = Inr g2"
    using wr0 by (simp only: cf(6))
  let ?heap' = "store_grid heap1 new g2"
  have at: "at = Recurse new (?heap', sols, st, ps)"
    using pr False c wr by (simp add: prepare_def)
  have valid: "\<forall>b\<in>set new. b < length heap1" using cf(4) by auto
  have l2: "load_grid ?heap' new = g2"
    by (rule load_store_grid[OF cf(3) valid]) (simp add: sh cf(5) load_grid_def)
  have "good ?heap' new row_clues col_clues width"
    using cf(3) valid l2 same_shape_well_formed[OF wf sh] sh(2) w
    by (simp add: good_def)
  with at l2 less False show ?thesis by auto
qed



text \<open>
  \<open>finishes r d n\<close>: the call returned, or was cancelled, with the depth statistic at
  most \<open>d\<close> and at most \<open>n\<close> solutions collected.
\<close>

definition finishes :: "(exn option \<times> world) option \<Rightarrow> nat \<Rightarrow> int \<Rightarrow> bool" where
  "finishes r d n \<longleftrightarrow>
     (\<exists>e heap' sols' st' ps'. r = Some (e, (heap', sols', st', ps')) \<and>
        (e = None \<or> e = Some Cancelled) \<and> max_depth st' \<le> d \<and> int (length sols') \<le> n)"

lemma dfs_finishes:
  assumes "good heap cur row_clues col_clues width"
    and "unknown_count (load_grid heap cur) < fuel"
  shows "finishes (dfs fuel (row_clues, col_clues, width, cap) cur depth (heap, sols, st, ps))
           (max (max_depth st) (depth + unknown_count (load_grid heap cur)))
           (max cap (int (length sols) + 1))"
  using assms
proof (induction fuel arbitrary: heap cur depth sols st ps)
  case 0
  then show ?case by simp
next
  case (Suc fuel)
  let ?env = "(row_clues, col_clues, width, cap)"
  let ?g = "load_grid heap cur"
  show ?case
  proof (cases "enter row_clues col_clues cur depth (heap, sols, st, ps)")
    case (Leave e w')
    with enter_good[OF Suc.prems(1) Leave] show ?thesis
      by (auto simp: finishes_def)
  next
    case (Split lt idx cands w1)
    with enter_good[OF Suc.prems(1) Split] obtain heap1 st1 ps1 where
      w1: "w1 = (heap1, sols, st1, ps1)"
      and good1: "good heap1 cur row_clues col_clues width"
      and md1: "max_depth st1 = max (max_depth st) depth"
      and unk1: "unknown_count (load_grid heap1 cur) \<le> unknown_count ?g"
      and fl: "\<forall>cand\<in>set cands. fills (load_grid heap1 cur) width lt idx cand"
      by auto
    let ?g1 = "load_grid heap1 cur"
    have le_fuel: "unknown_count ?g1 \<le> fuel" using unk1 Suc.prems(2) by simp
    have B: "finishes (branch fuel ?env (cur, depth, lt, idx) cs (h, so, s, p))
               (max (max_depth s) (depth + unknown_count ?g1)) (max cap (int (length so)))"
      if "good h cur row_clues col_clues width" "load_grid h cur = ?g1"
         "\<forall>cand\<in>set cs. fills ?g1 width lt idx cand" for cs h so s p
      using that
    proof (induction cs arbitrary: h so s p)
      case Nil
      then show ?case by (simp add: finishes_def)
    next
      case (Cons cand cs)
      have f: "fills (load_grid h cur) width lt idx cand" using Cons.prems(2,3) by simp
      let ?at = "prepare width cap cur lt idx cand (h, so, s, p)"
      from prepare_good[OF Cons.prems(1) f refl, of cap so s p]
      show ?case
      proof (elim disjE conjE exE)
        assume "cap \<le> int (length so)" "?at = Return (h, so, s, p)"
        then show ?thesis by (simp add: finishes_def)
      next
        fix new h1
        assume lt_cap: "int (length so) < cap" and at: "?at = Recurse new (h1, so, s, p)"
          and goodn: "good h1 new row_clues col_clues width"
          and less: "unknown_count (load_grid h1 new) < unknown_count (load_grid h cur)"
        from prepare_frame(3)[OF refl at]
        have f1: "length h \<le> length h1" "\<forall>a<length h. h1 ! a = h ! a"
          "\<forall>b\<in>set new. length h \<le> b"
          by auto
        have lessf: "unknown_count (load_grid h1 new) < fuel"
          using less Cons.prems(2) le_fuel by simp
        from Suc.IH[OF goodn lessf, of "depth + 1" so s p]
        obtain e2 h2 so2 s2 p2 where
          d: "dfs fuel ?env new (depth + 1) (h1, so, s, p) = Some (e2, (h2, so2, s2, p2))"
          and e2: "e2 = None \<or> e2 = Some Cancelled"
          and md2: "max_depth s2 \<le> max (max_depth s) (depth + 1 + unknown_count (load_grid h1 new))"
          and n2: "int (length so2) \<le> max cap (int (length so) + 1)"
          by (auto simp: finishes_def)
        have md2': "max_depth s2 \<le> max (max_depth s) (depth + unknown_count ?g1)"
          using md2 less Cons.prems(2) by auto
        have n2': "int (length so2) \<le> cap" using n2 lt_cap by simp
        show ?thesis
        proof (cases e2)
          case (Some e3)
          then show ?thesis
            using at d e2 md2' n2' by (simp add: finishes_def)
        next
          case None
          from dfs_frame[OF d]
          have f2: "length h1 \<le> length h2" "\<forall>a<length h1. a \<notin> set new \<longrightarrow> h2 ! a = h1 ! a"
            by auto
          have valid: "\<forall>a\<in>set cur. a < length h" using Cons.prems(1) by (simp add: good_def)
          have same: "\<forall>a\<in>set cur. h2 ! a = h ! a"
          proof
            fix a assume a: "a \<in> set cur"
            then have "a < length h" using valid by simp
            moreover from this have "a \<notin> set new" using f1(3) by auto
            ultimately show "h2 ! a = h ! a" using f1 f2 by simp
          qed
          have len: "length h \<le> length h2" using f1 f2 by simp
          note gf = good_frame[OF Cons.prems(1) same len]
          have "finishes (branch fuel ?env (cur, depth, lt, idx) cs (h2, so2, s2, p2))
               (max (max_depth s2) (depth + unknown_count ?g1)) (max cap (int (length so2)))"
            by (rule Cons.IH) (use gf Cons.prems(2,3) in auto)
          then have "finishes (branch fuel ?env (cur, depth, lt, idx) cs (h2, so2, s2, p2))
               (max (max_depth s) (depth + unknown_count ?g1)) (max cap (int (length so)))"
            using md2' n2' by (auto simp: finishes_def)
          then show ?thesis using at d None by simp
        qed
      qed
    qed
    have "finishes (branch fuel ?env (cur, depth, lt, idx) cands (heap1, sols, st1, ps1))
               (max (max_depth st1) (depth + unknown_count ?g1)) (max cap (int (length sols)))"
      by (rule B[OF good1 refl fl])
    then have "finishes (branch fuel ?env (cur, depth, lt, idx) cands (heap1, sols, st1, ps1))
           (max (max_depth st) (depth + unknown_count ?g))
           (max cap (int (length sols) + 1))"
      using md1 unk1 by (auto simp: finishes_def)
    then show ?thesis using Split w1 by simp
  qed
qed



lemma count_where_le: "count_where P g \<le> sum_list (map length g)"
proof -
  have "sum_list (map (\<lambda>v. if P v then 1 else 0) row) \<le> length row" for row :: "int list"
    by (induction row) auto
  then show ?thesis
    unfolding count_where_def by (intro sum_list_mono) auto
qed

lemma rect_cells: "rect g h w \<Longrightarrow> sum_list (map length g) = h * w"
proof (induction g arbitrary: h)
  case Nil
  then show ?case by (simp add: rect_def)
next
  case (Cons row g)
  then obtain h' where h: "h = Suc h'" by (cases h) (auto simp: rect_def)
  have "rect g h' w" using Cons.prems h by (auto simp: rect_def)
  moreover have "length row = w" using Cons.prems h by (auto simp: rect_def)
  ultimately show ?case using Cons.IH[of h'] h by simp
qed

lemma unknown_count_le_cells:
  "well_formed g row_clues col_clues \<Longrightarrow> unknown_count g \<le> length g * length (g ! 0)"
  using count_where_le[of "\<lambda>v. v = UNKNOWN" g] rect_cells[OF well_formed_rect]
  by (simp add: unknown_count_def)

text \<open>The outcome of \<open>dfs\<close> on the copy that \<open>solve_nonogram\<close> makes.\<close>

lemma start_finishes:
  assumes valid: "\<forall>a\<in>set grid. a < length heap"
    and wf: "well_formed (load_grid heap grid) row_clues col_clues"
    and fuel: "unknown_count (load_grid heap grid) < fuel"
  shows "\<exists>row0 heap1 start. item grid 0 = Inr row0 \<and> copy_grid heap grid = (heap1, start) \<and>
           finishes (dfs fuel (row_clues, col_clues, length (heap ! row0), cap) start 0
                       (heap1, [], SolveStats_init, polls))
             (unknown_count (load_grid heap grid)) (max cap 1)"
proof -
  let ?G = "load_grid heap grid"
  from wf have "?G \<noteq> []" unfolding well_formed_def by blast
  then have ne: "grid \<noteq> []" by (auto simp: load_grid_def)
  then have row0: "item grid 0 = Inr (grid ! 0)" by (simp add: item_def)
  obtain heap1 start where c: "copy_grid heap grid = (heap1, start)"
    by (cases "copy_grid heap grid")
  note cf = copy_grid_facts[OF c]
  have w: "length (?G ! 0) = length (heap ! (grid ! 0))"
    using ne by (simp add: load_grid_def)
  have good: "good heap1 start row_clues col_clues (length (heap ! (grid ! 0)))"
    using cf(3,4,6) wf w unfolding good_def by auto
  have "finishes (dfs fuel (row_clues, col_clues, length (heap ! (grid ! 0)), cap) start 0
                       (heap1, [], SolveStats_init, polls))
          (max (max_depth SolveStats_init) (0 + unknown_count (load_grid heap1 start)))
          (max cap (int (length ([] :: int list list list)) + 1))"
    by (rule dfs_finishes[OF good]) (use fuel cf(6) in simp)
  then show ?thesis
    using row0 c cf(6) by (auto simp: SolveStats_init_def)
qed

lemma solve_nonogram_result:
  assumes "item grid 0 = Inr row0" "copy_grid heap grid = (heap1, start)"
    and "dfs fuel (row_clues, col_clues, length (heap ! row0), cap) start 0
           (heap1, [], SolveStats_init, polls) = Some (e, (heap', found, st, ps'))"
    and "e = None \<or> e = Some Cancelled"
  shows "\<exists>result. solve_nonogram fuel heap grid row_clues col_clues polls cap
             = Some (Inr result, heap') \<and> stats result = st \<and>
           (e = Some Cancelled \<and> status result = ''cancelled'' \<and> solutions result = [] \<or>
            e = None \<and> found = [] \<and> status result = ''unsolved'' \<and> solutions result = [] \<or>
            e = None \<and> length found = 1 \<and> status result = ''solved'' \<and>
              solutions result = found \<or>
            e = None \<and> 2 \<le> length found \<and> status result = ''multiple'' \<and>
              solutions result = take 2 found)"
proof (cases e)
  case None
  consider "found = []" | "length found = 1" | "2 \<le> length found"
    by (cases found) (auto simp: Suc_le_eq)
  then show ?thesis
    using assms None by cases (auto simp: solve_nonogram_def)
next
  case (Some e1)
  with assms(4) have "e = Some Cancelled" by simp
  then show ?thesis using assms by (simp add: solve_nonogram_def)
qed



text \<open>
  C6. On a well-formed puzzle, with the recursion bound above the number of unknown
  cells, \<open>solve_nonogram\<close> returns a result (it raises nothing), and the result is
  classified from the outcome of \<open>dfs\<close> on the copy of the grid: \<open>cancelled\<close> with no grid
  when \<open>dfs\<close> was cancelled, and else \<open>unsolved\<close> with no grid when \<open>dfs\<close> found no
  solution, \<open>solved\<close> with the one grid when it found one, \<open>multiple\<close> with the first two
  grids when it found two or more. \<open>dfs\<close> collects at most \<open>max_solutions\<close> solutions (one,
  if \<open>max_solutions\<close> is less): its loop over the candidates, before it tries a candidate,
  returns with nothing changed when the number of solutions has reached \<open>max_solutions\<close>.
\<close>

theorem solve_classifies:
  assumes valid: "\<forall>a\<in>set grid. a < length heap"
    and wf: "well_formed (load_grid heap grid) row_clues col_clues"
    and fuel: "unknown_count (load_grid heap grid) < fuel"
  shows "(\<exists>result heap' e found ps'.
            dfs fuel (row_clues, col_clues, length (heap ! (grid ! 0)), cap)
              (snd (copy_grid heap grid)) 0
              (fst (copy_grid heap grid), [], SolveStats_init, polls)
              = Some (e, (heap', found, stats result, ps')) \<and>
            int (length found) \<le> max cap 1 \<and>
            solve_nonogram fuel heap grid row_clues col_clues polls cap
              = Some (Inr result, heap') \<and>
            (e = Some Cancelled \<and> status result = ''cancelled'' \<and> solutions result = [] \<or>
             e = None \<and> found = [] \<and> status result = ''unsolved'' \<and> solutions result = [] \<or>
             e = None \<and> length found = 1 \<and> status result = ''solved'' \<and>
               solutions result = found \<or>
             e = None \<and> 2 \<le> length found \<and> status result = ''multiple'' \<and>
               solutions result = take 2 found)) \<and>
         (cap \<le> int (length sols) \<longrightarrow>
            branch fuel' (row_clues, col_clues, width, cap) frame (cand # cands) (h, sols, st, ps)
              = Some (None, (h, sols, st, ps)))"
proof (rule conjI)
  from start_finishes[OF valid wf fuel, of cap polls] obtain row0 heap1 start e heap' found st' ps'
    where row0: "item grid 0 = Inr row0" and c: "copy_grid heap grid = (heap1, start)"
      and d: "dfs fuel (row_clues, col_clues, length (heap ! row0), cap) start 0
                (heap1, [], SolveStats_init, polls) = Some (e, (heap', found, st', ps'))"
      and e: "e = None \<or> e = Some Cancelled" and n: "int (length found) \<le> max cap 1"
    by (auto simp: finishes_def)
  from row0 have r0: "row0 = grid ! 0" by (simp add: item_Inr)
  from solve_nonogram_result[OF row0 c d e] obtain result where
    "solve_nonogram fuel heap grid row_clues col_clues polls cap = Some (Inr result, heap')"
    "stats result = st'"
    "e = Some Cancelled \<and> status result = ''cancelled'' \<and> solutions result = [] \<or>
     e = None \<and> found = [] \<and> status result = ''unsolved'' \<and> solutions result = [] \<or>
     e = None \<and> length found = 1 \<and> status result = ''solved'' \<and> solutions result = found \<or>
     e = None \<and> 2 \<le> length found \<and> status result = ''multiple'' \<and>
       solutions result = take 2 found"
    by blast
  with d n c r0 show "\<exists>result heap' e found ps'.
            dfs fuel (row_clues, col_clues, length (heap ! (grid ! 0)), cap)
              (snd (copy_grid heap grid)) 0
              (fst (copy_grid heap grid), [], SolveStats_init, polls)
              = Some (e, (heap', found, stats result, ps')) \<and>
            int (length found) \<le> max cap 1 \<and>
            solve_nonogram fuel heap grid row_clues col_clues polls cap
              = Some (Inr result, heap') \<and>
            (e = Some Cancelled \<and> status result = ''cancelled'' \<and> solutions result = [] \<or>
             e = None \<and> found = [] \<and> status result = ''unsolved'' \<and> solutions result = [] \<or>
             e = None \<and> length found = 1 \<and> status result = ''solved'' \<and>
               solutions result = found \<or>
             e = None \<and> 2 \<le> length found \<and> status result = ''multiple'' \<and>
               solutions result = take 2 found)"
    by (intro exI[of _ result] exI[of _ heap'] exI[of _ e] exI[of _ found] exI[of _ ps']) simp
next
  show "cap \<le> int (length sols) \<longrightarrow>
            branch fuel' (row_clues, col_clues, width, cap) frame (cand # cands) (h, sols, st, ps)
              = Some (None, (h, sols, st, ps))"
    by (simp add: prepare_def)
qed

theorem solve_classifies_witness:
  "well_formed (load_grid [[UNKNOWN, UNKNOWN], [UNKNOWN, UNKNOWN]] [0, 1]) [[1], [1]] [[1], [1]] \<and>
   unknown_count (load_grid [[UNKNOWN, UNKNOWN], [UNKNOWN, UNKNOWN]] [0, 1]) < 5 \<and>
   (\<exists>heap'. solve_nonogram 5 [[UNKNOWN, UNKNOWN], [UNKNOWN, UNKNOWN]] [0, 1] [[1], [1]] [[1], [1]] [] 2 =
     Some (Inr \<lparr>status = ''multiple'',
             solutions = [[[FILLED, EMPTY], [EMPTY, FILLED]], [[EMPTY, FILLED], [FILLED, EMPTY]]],
             stats = \<lparr>iterations = 5, nodes = 3, max_depth = 1, fixed_cells = 4\<rparr>,
             message = ''Multiple solutions found''\<rparr>, heap'))"
proof -
  let ?H = "[[UNKNOWN, UNKNOWN], [UNKNOWN, UNKNOWN]]"
  have v: "\<forall>a\<in>set [0, 1]. a < length ?H" by simp
  have wf: "well_formed (load_grid ?H [0, 1]) [[1], [1]] [[1], [1]]"
    by (simp add: well_formed_def load_grid_def)
  have u: "unknown_count (load_grid ?H [0, 1]) < 5"
    by (simp add: unknown_count_def count_where_def load_grid_def)
  have ev: "solve_nonogram 5 ?H [0, 1] [[1], [1]] [[1], [1]] [] 2 =
     Some (Inr \<lparr>status = ''multiple'',
             solutions = [[[FILLED, EMPTY], [EMPTY, FILLED]], [[EMPTY, FILLED], [FILLED, EMPTY]]],
             stats = \<lparr>iterations = 5, nodes = 3, max_depth = 1, fixed_cells = 4\<rparr>,
             message = ''Multiple solutions found''\<rparr>,
       [[UNKNOWN, UNKNOWN], [UNKNOWN, UNKNOWN], [UNKNOWN, UNKNOWN],
        [UNKNOWN, UNKNOWN], [FILLED, EMPTY], [EMPTY, FILLED], [EMPTY, FILLED],
        [FILLED, EMPTY]])"
    by code_simp
  from solve_classifies[OF v wf u, of 2 "[]"] v wf u ev show ?thesis by simp
qed

text \<open>
  C7. On a well-formed puzzle: the grid that \<open>dfs\<close> makes for a candidate of the line
  it branches on has strictly fewer unknown cells than the grid it branches from, since
  the line held an unknown cell and the candidate fills all of it; \<open>propagate\<close> adds no
  unknown cell; so \<open>solve_nonogram\<close> returns with a recursion bound of one more than the
  number of unknown cells of its grid, and the depth it reports is at most that number,
  which is at most the number of cells.
\<close>

theorem search_terminates:
  assumes valid: "\<forall>a\<in>set grid. a < length heap"
    and wf: "well_formed (load_grid heap grid) row_clues col_clues"
  shows "(well_formed g row_clues col_clues \<and>
          best_branch_line g row_clues col_clues = Inr (line_type, index, candidates) \<and>
          cand \<in> set candidates \<longrightarrow> fills g (length (g ! 0)) line_type index cand) \<and>
         unknown_count (fst (snd (propagate g row_clues col_clues polls'))) \<le> unknown_count g \<and>
         (\<exists>result heap'.
            solve_nonogram (Suc (unknown_count (load_grid heap grid))) heap grid
              row_clues col_clues polls cap = Some (Inr result, heap') \<and>
            max_depth (stats result) \<le> unknown_count (load_grid heap grid)) \<and>
         unknown_count (load_grid heap grid)
           \<le> length (load_grid heap grid) * length (load_grid heap grid ! 0)"
proof (intro conjI impI)
  assume "well_formed g row_clues col_clues \<and>
          best_branch_line g row_clues col_clues = Inr (line_type, index, candidates) \<and>
          cand \<in> set candidates"
  then show "fills g (length (g ! 0)) line_type index cand"
    using selected_line_fills by blast
next
  obtain res g' ps where p: "propagate g row_clues col_clues polls' = (res, g', ps)"
    by (metis prod_cases3)
  from determines_unknown[OF propagate_determines[OF p]] p
  show "unknown_count (fst (snd (propagate g row_clues col_clues polls'))) \<le> unknown_count g"
    by simp
next
  let ?n = "unknown_count (load_grid heap grid)"
  have fuel: "?n < Suc ?n" by simp
  from start_finishes[OF valid wf fuel, of cap polls] obtain row0 heap1 start e heap' found st' ps'
    where row0: "item grid 0 = Inr row0" and c: "copy_grid heap grid = (heap1, start)"
      and d: "dfs (Suc ?n) (row_clues, col_clues, length (heap ! row0), cap) start 0
                (heap1, [], SolveStats_init, polls) = Some (e, (heap', found, st', ps'))"
      and e: "e = None \<or> e = Some Cancelled" and md: "max_depth st' \<le> ?n"
    by (auto simp: finishes_def)
  from solve_nonogram_result[OF row0 c d e] md
  show "\<exists>result heap'.
            solve_nonogram (Suc ?n) heap grid row_clues col_clues polls cap
              = Some (Inr result, heap') \<and>
            max_depth (stats result) \<le> ?n"
    by auto
next
  show "unknown_count (load_grid heap grid)
           \<le> length (load_grid heap grid) * length (load_grid heap grid ! 0)"
    by (rule unknown_count_le_cells[OF wf])
qed

theorem search_terminates_witness:
  "well_formed (load_grid [[UNKNOWN, UNKNOWN], [UNKNOWN, UNKNOWN]] [0, 1]) [[1], [1]] [[1], [1]] \<and>
   best_branch_line [[UNKNOWN, UNKNOWN], [UNKNOWN, UNKNOWN]] [[1], [1]] [[1], [1]]
     = Inr (''row'', 0, [[FILLED, EMPTY], [EMPTY, FILLED]]) \<and>
   fills [[UNKNOWN, UNKNOWN], [UNKNOWN, UNKNOWN]] 2 ''row'' 0 [FILLED, EMPTY] \<and>
   (\<exists>result heap'.
      solve_nonogram 5 [[UNKNOWN, UNKNOWN], [UNKNOWN, UNKNOWN]] [0, 1] [[1], [1]] [[1], [1]] [] 2
        = Some (Inr result, heap') \<and> max_depth (stats result) \<le> 4)"
proof -
  let ?H = "[[UNKNOWN, UNKNOWN], [UNKNOWN, UNKNOWN]]"
  have v: "\<forall>a\<in>set [0, 1]. a < length ?H" by simp
  have l: "load_grid ?H [0, 1] = ?H" by (simp add: load_grid_def)
  have wf: "well_formed (load_grid ?H [0, 1]) [[1], [1]] [[1], [1]]"
    by (simp add: well_formed_def load_grid_def)
  have u: "unknown_count (load_grid ?H [0, 1]) = 4"
    by (simp add: unknown_count_def count_where_def load_grid_def)
  have sel: "best_branch_line ?H [[1], [1]] [[1], [1]]
     = Inr (''row'', 0, [[FILLED, EMPTY], [EMPTY, FILLED]])"
    by code_simp
  from search_terminates[OF v wf, of ?H "''row''" 0 "[[FILLED, EMPTY], [EMPTY, FILLED]]"
      "[FILLED, EMPTY]" "[]" "[]" 2]
  show ?thesis using v wf[unfolded l] wf sel u by (simp add: numeral_2_eq_2)
qed

text \<open>
  C9. Whatever the grid, the clues, the answers of the cancellation flag and the cap,
  and however \<open>solve_nonogram\<close> is left, every row object that existed before the call
  holds the value it held: the rows of the caller's grid are as they were. On a
  well-formed puzzle the call is left, with a recursion bound of one more than the
  number of unknown cells.
\<close>

theorem solve_leaves_grid_unchanged:
  assumes valid: "\<forall>a\<in>set grid. a < length heap"
  shows "(solve_nonogram fuel heap grid row_clues col_clues polls cap = Some (res, heap') \<longrightarrow>
            load_grid heap' grid = load_grid heap grid \<and>
            (\<forall>a<length heap. heap' ! a = heap ! a)) \<and>
         (well_formed (load_grid heap grid) row_clues col_clues \<longrightarrow>
            (\<exists>res heap'.
               solve_nonogram (Suc (unknown_count (load_grid heap grid))) heap grid
                 row_clues col_clues polls cap = Some (res, heap')))"
proof (rule conjI; rule impI)
  assume run: "solve_nonogram fuel heap grid row_clues col_clues polls cap = Some (res, heap')"
  have "\<forall>a<length heap. heap' ! a = heap ! a"
  proof (cases "item grid 0")
    case (Inl e)
    then show ?thesis using run by (simp add: solve_nonogram_def)
  next
    case (Inr row0)
    obtain heap1 start where c: "copy_grid heap grid = (heap1, start)"
      by (cases "copy_grid heap grid")
    note cf = copy_grid_facts[OF c]
    from run Inr c obtain e rest' where
      d: "dfs fuel (row_clues, col_clues, length (heap ! row0), cap) start 0
            (heap1, [], SolveStats_init, polls) = Some (e, (heap', rest'))"
      by (auto simp: solve_nonogram_def split: option.splits sum.splits if_splits exn.splits)
    from dfs_frame[OF d]
    have "\<forall>a<length heap1. a \<notin> set start \<longrightarrow> heap' ! a = heap1 ! a" by simp
    moreover have "a \<notin> set start" if "a < length heap" for a
      using cf(4)[of a] that by auto
    ultimately show ?thesis using cf(1,2) by simp
  qed
  then show "load_grid heap' grid = load_grid heap grid \<and> (\<forall>a<length heap. heap' ! a = heap ! a)"
    using valid by (simp add: load_grid_def)
next
  assume wf: "well_formed (load_grid heap grid) row_clues col_clues"
  let ?n = "unknown_count (load_grid heap grid)"
  have fuel: "?n < Suc ?n" by simp
  from start_finishes[OF valid wf fuel, of cap polls] obtain row0 heap1 start e heap' found st' ps'
    where row0: "item grid 0 = Inr row0" and c: "copy_grid heap grid = (heap1, start)"
      and d: "dfs (Suc ?n) (row_clues, col_clues, length (heap ! row0), cap) start 0
                (heap1, [], SolveStats_init, polls) = Some (e, (heap', found, st', ps'))"
      and e: "e = None \<or> e = Some Cancelled"
    by (auto simp: finishes_def)
  from solve_nonogram_result[OF row0 c d e]
  show "\<exists>res heap'. solve_nonogram (Suc ?n) heap grid row_clues col_clues polls cap
          = Some (res, heap')"
    by blast
qed

theorem solve_leaves_grid_unchanged_witness:
  "solve_nonogram 5 [[UNKNOWN, FILLED], [UNKNOWN, UNKNOWN], [EMPTY]] [1, 0]
       [[1], [1]] [[1], [1]] [] 2 =
     Some (Inr \<lparr>status = ''solved'', solutions = [[[FILLED, EMPTY], [EMPTY, FILLED]]],
             stats = \<lparr>iterations = 2, nodes = 1, max_depth = 0, fixed_cells = 4\<rparr>,
             message = ''Unique solution''\<rparr>,
       [[UNKNOWN, FILLED], [UNKNOWN, UNKNOWN], [EMPTY], [FILLED, EMPTY], [EMPTY, FILLED]]) \<and>
   load_grid [[UNKNOWN, FILLED], [UNKNOWN, UNKNOWN], [EMPTY], [FILLED, EMPTY], [EMPTY, FILLED]] [1, 0]
     = load_grid [[UNKNOWN, FILLED], [UNKNOWN, UNKNOWN], [EMPTY]] [1, 0]"
proof -
  let ?H = "[[UNKNOWN, FILLED], [UNKNOWN, UNKNOWN], [EMPTY]]"
  have v: "\<forall>a\<in>set [1, 0]. a < length ?H" by simp
  have ev: "solve_nonogram 5 ?H [1, 0] [[1], [1]] [[1], [1]] [] 2 =
     Some (Inr \<lparr>status = ''solved'', solutions = [[[FILLED, EMPTY], [EMPTY, FILLED]]],
             stats = \<lparr>iterations = 2, nodes = 1, max_depth = 0, fixed_cells = 4\<rparr>,
             message = ''Unique solution''\<rparr>,
       [[UNKNOWN, FILLED], [UNKNOWN, UNKNOWN], [EMPTY], [FILLED, EMPTY], [EMPTY, FILLED]])"
    by code_simp
  from solve_leaves_grid_unchanged[OF v, of 5 "[[1], [1]]" "[[1], [1]]" "[]" 2] ev v
  show ?thesis by simp
qed


section \<open>Clues that do not fit their line\<close>

text \<open>
  \<open>place\<close> computes \<open>max_start\<close> for the first block from the lengths of all the blocks and
  the separators between them. When these exceed the line, the range of starts is empty
  and the generator returns no candidate, whatever the state of the line.
\<close>

lemma unfit_no_candidates:
  assumes "blocks \<noteq> []" and "L + 1 < sum_list blocks + length blocks"
  shows "line_candidates L blocks ls = Inr []"
proof -
  from assms(1) obtain b rest where b: "blocks = b # rest" by (cases blocks) auto
  from assms(2) have "nat (int L - int (b + (sum_list rest + length rest)) + 1) = 0"
    by (simp add: b)
  then have "place L ls blocks 0 (replicate L EMPTY, []) = Inr (replicate L EMPTY, [])"
    by (simp add: b Let_def)
  then show ?thesis using assms(1) by (simp add: line_candidates_def)
qed

lemma reduce_line_unfit:
  assumes "blocks = Inr bs" "bs \<noteq> []" "len + 1 < sum_list bs + length bs"
  shows "fst (reduce_line mark len line_state blocks cells s) \<noteq> Normal"
  using assms unfit_no_candidates[OF assms(2,3)]
  by (simp add: reduce_line_def split: sum.splits)

lemma reduce_rows_unfit:
  assumes "r \<in> set rs" "r < length row_clues" "row_clues ! r \<noteq> []"
    and "w + 1 < sum_list (row_clues ! r) + length (row_clues ! r)"
  shows "fst (reduce_rows mark row_clues w rs s) \<noteq> Normal"
  using assms(1)
proof (induction rs arbitrary: s)
  case Nil
  then show ?case by simp
next
  case (Cons r0 rs)
  obtain fl1 s1 where one:
    "reduce_line mark w (item (fst s) r0) (item row_clues r0) (map (\<lambda>c. (r0, c)) [0..<w]) s
       = (fl1, s1)"
    by (cases "reduce_line mark w (item (fst s) r0) (item row_clues r0)
                 (map (\<lambda>c. (r0, c)) [0..<w]) s")
  show ?case
  proof (cases "fl1 = Normal")
    case True
    have "r0 \<noteq> r"
    proof
      assume "r0 = r"
      then have "item row_clues r0 = Inr (row_clues ! r)" using assms(2) by (simp add: item_def)
      from reduce_line_unfit[OF this assms(3,4), of mark "item (fst s) r0"
          "map (\<lambda>c. (r0, c)) [0..<w]" s] one True
      show False by simp
    qed
    then have "r \<in> set rs" using Cons.prems by simp
    from Cons.IH[OF this, of s1] one True show ?thesis by simp
  next
    case False
    then show ?thesis using one by (cases fl1) simp_all
  qed
qed

lemma reduce_cols_unfit:
  assumes "c \<in> set cs" "c < length col_clues" "col_clues ! c \<noteq> []"
    and "h + 1 < sum_list (col_clues ! c) + length (col_clues ! c)"
  shows "fst (reduce_cols mark col_clues h cs s) \<noteq> Normal"
  using assms(1)
proof (induction cs arbitrary: s)
  case Nil
  then show ?case by simp
next
  case (Cons c0 cs)
  obtain fl1 s1 where one:
    "reduce_line mark h (column (fst s) c0 [0..<h]) (item col_clues c0)
       (map (\<lambda>r. (r, c0)) [0..<h]) s = (fl1, s1)"
    by (cases "reduce_line mark h (column (fst s) c0 [0..<h]) (item col_clues c0)
                 (map (\<lambda>r. (r, c0)) [0..<h]) s")
  show ?case
  proof (cases "fl1 = Normal")
    case True
    have "c0 \<noteq> c"
    proof
      assume "c0 = c"
      then have "item col_clues c0 = Inr (col_clues ! c)" using assms(2) by (simp add: item_def)
      from reduce_line_unfit[OF this assms(3,4), of mark "column (fst s) c0 [0..<h]"
          "map (\<lambda>r. (r, c0)) [0..<h]" s] one True
      show False by simp
    qed
    then have "c \<in> set cs" using Cons.prems by simp
    from Cons.IH[OF this, of s1] one True show ?thesis by simp
  next
    case False
    then show ?thesis using one by (cases fl1) simp_all
  qed
qed

text \<open>A clue of the puzzle that does not fit: a row clue in the width, or a column clue
  in the height.\<close>

definition unfit :: "nat list list \<Rightarrow> nat list list \<Rightarrow> nat \<Rightarrow> nat \<Rightarrow> bool" where
  "unfit row_clues col_clues h w \<longleftrightarrow>
     (\<exists>r<h. r < length row_clues \<and> row_clues ! r \<noteq> [] \<and>
             w + 1 < sum_list (row_clues ! r) + length (row_clues ! r)) \<or>
     (\<exists>c<w. c < length col_clues \<and> col_clues ! c \<noteq> [] \<and>
             h + 1 < sum_list (col_clues ! c) + length (col_clues ! c))"

lemma sweep_unfit:
  assumes "unfit row_clues col_clues h w"
  shows "fst (sweep mark row_clues col_clues h w s) \<noteq> Normal"
proof -
  obtain fl1 s1 where rows: "reduce_rows mark row_clues w [0..<h] s = (fl1, s1)"
    by (cases "reduce_rows mark row_clues w [0..<h] s")
  show ?thesis
  proof (cases "fl1 = Normal")
    case True
    have "\<not> (\<exists>r<h. r < length row_clues \<and> row_clues ! r \<noteq> [] \<and>
             w + 1 < sum_list (row_clues ! r) + length (row_clues ! r))"
    proof
      assume "\<exists>r<h. r < length row_clues \<and> row_clues ! r \<noteq> [] \<and>
             w + 1 < sum_list (row_clues ! r) + length (row_clues ! r)"
      then obtain r where r: "r < h" "r < length row_clues" "row_clues ! r \<noteq> []"
        "w + 1 < sum_list (row_clues ! r) + length (row_clues ! r)" by blast
      from r(1) have "r \<in> set [0..<h]" by simp
      from reduce_rows_unfit[OF this r(2,3,4), of mark s] rows True show False by simp
    qed
    with assms obtain c where c: "c < w" "c < length col_clues" "col_clues ! c \<noteq> []"
        "h + 1 < sum_list (col_clues ! c) + length (col_clues ! c)"
      unfolding unfit_def by blast
    from c(1) have "c \<in> set [0..<w]" by simp
    from reduce_cols_unfit[OF this c(2,3,4), of mark s1] rows True
    show ?thesis by (simp add: sweep_def)
  next
    case False
    then show ?thesis using rows by (cases fl1) (simp_all add: sweep_def)
  qed
qed

lemma propagate_unfit:
  assumes "unfit row_clues col_clues (length g) (length (g ! 0))"
  shows "fst (propagate g row_clues col_clues polls) \<noteq> Inr (True, st')"
proof (cases "item g 0")
  case (Inl e)
  then show ?thesis by (simp add: propagate_def)
next
  case (Inr row0)
  then have row0: "row0 = g ! 0" by (simp add: item_Inr)
  let ?sw = "sweep (\<lambda>_. True) row_clues col_clues (length g) (length (g ! 0)) (g, False)"
  obtain fl g1 ch where sw: "?sw = (fl, g1, ch)" by (cases ?sw)
  from sweep_unfit[OF assms, of "\<lambda>_. True" "(g, False)"] sw have "fl \<noteq> Normal" by simp
  then have "fst (propagate_loop row_clues col_clues (length g) (length (g ! 0))
                SolveStats_init g polls) \<noteq> Inr (True, st')"
    using sw by (subst propagate_loop.simps) (cases fl; simp split: sum.splits)
  then show ?thesis using Inr row0 by (simp add: propagate_def)
qed

text \<open>
  The solve of a well-formed puzzle with a clue that does not fit: the first propagation
  finds no candidate for the line, \<open>dfs\<close> returns with no solution, and the result is
  \<open>unsolved\<close>, or \<open>cancelled\<close> when the cancellation flag was set before.
\<close>

lemma solve_unfit:
  assumes valid: "\<forall>a\<in>set grid. a < length heap"
    and wf: "well_formed (load_grid heap grid) row_clues col_clues"
    and un: "unfit row_clues col_clues (length (load_grid heap grid))
               (length (load_grid heap grid ! 0))"
  shows "\<exists>result heap'.
           solve_nonogram (Suc fuel) heap grid row_clues col_clues polls cap
             = Some (Inr result, heap') \<and>
           solutions result = [] \<and>
           (status result = ''unsolved'' \<or> status result = ''cancelled'')"
proof -
  let ?G = "load_grid heap grid"
  from wf have "?G \<noteq> []" unfolding well_formed_def by blast
  then have ne: "grid \<noteq> []" by (auto simp: load_grid_def)
  then have row0: "item grid 0 = Inr (grid ! 0)" by (simp add: item_def)
  obtain heap1 start where c: "copy_grid heap grid = (heap1, start)"
    by (cases "copy_grid heap grid")
  note cf = copy_grid_facts[OF c]
  let ?w = "(heap1, [], SolveStats_init, polls)"
  have "\<exists>e heap' st ps'. enter row_clues col_clues start 0 ?w = Leave e (heap', [], st, ps') \<and>
          (e = None \<or> e = Some Cancelled)"
  proof (cases "check_cancel polls")
    case (Inl e)
    then show ?thesis using check_cancel_Inl[OF Inl] by (simp add: enter_def)
  next
    case (Inr ps1)
    obtain res g' ps2 where p: "propagate ?G row_clues col_clues ps1 = (res, g', ps2)"
      by (metis prod_cases3)
    show ?thesis
    proof (cases res)
      case (Inl e)
      with propagate_no_index_error[OF wf] p have "e = Cancelled" by simp
      then show ?thesis using Inr p Inl cf(6) by (simp add: enter_def Let_def)
    next
      case r: (Inr okst)
      obtain ok pst where okst: "okst = (ok, pst)" by (cases okst)
      from propagate_unfit[OF un, of ps1 pst] p r okst have "\<not> ok" by auto
      then show ?thesis using Inr p r okst cf(6) by (simp add: enter_def Let_def)
    qed
  qed
  then obtain e heap' st ps' where
    en: "enter row_clues col_clues start 0 ?w = Leave e (heap', [], st, ps')"
    and e: "e = None \<or> e = Some Cancelled" by blast
  have d: "dfs (Suc fuel) (row_clues, col_clues, length (heap ! (grid ! 0)), cap) start 0 ?w
             = Some (e, (heap', [], st, ps'))"
    using en by simp
  from solve_nonogram_result[OF row0 c d e] show ?thesis by auto
qed


section \<open>Puzzle data\<close>

text \<open>
  The dataclass \<open>Puzzle\<close> of \<^verbatim>\<open>model.py\<close>. The clues of a puzzle are lists of Python
  integers; the solver's clues above are the same lists once their values are known
  to be positive.
\<close>

record Puzzle =
  width :: int
  height :: int
  row_clues :: "int list list"
  col_clues :: "int list list"
  grid :: "int list list"

text \<open>The loop of \<open>_validate\<close> over the rows of the grid.\<close>

fun check_rows :: "int \<Rightarrow> int list list \<Rightarrow> exn + unit" where
  "check_rows w [] = Inr ()"
| "check_rows w (row # rows) =
     (if int (length row) \<noteq> w then Inl (ValueError ''grid width mismatch'')
      else if \<exists>v\<in>set row. v \<notin> {UNKNOWN, EMPTY, FILLED} then
        Inl (ValueError ''grid contains invalid value'')
      else check_rows w rows)"

definition validate :: "Puzzle \<Rightarrow> exn + unit" where
  "validate p =
     (if int (length (row_clues p)) \<noteq> height p then Inl (ValueError ''row_clues length mismatch'')
      else if int (length (col_clues p)) \<noteq> width p then
        Inl (ValueError ''col_clues length mismatch'')
      else if int (length (grid p)) \<noteq> height p then Inl (ValueError ''grid height mismatch'')
      else check_rows (width p) (grid p))"

text \<open>\<open>__post_init__\<close>: the dimensions are checked, empty fields get their defaults, and
  the puzzle is validated. \<open>range\<close> of a number that is not positive is empty.\<close>

definition post_init :: "Puzzle \<Rightarrow> exn + Puzzle" where
  "post_init p =
     (if width p \<le> 0 \<or> height p \<le> 0 then Inl (ValueError ''width and height must be positive'')
      else
        let p1 = (if row_clues p = [] then p\<lparr>row_clues := replicate (nat (height p)) []\<rparr> else p);
            p2 = (if col_clues p1 = [] then p1\<lparr>col_clues := replicate (nat (width p1)) []\<rparr>
                  else p1);
            p3 = (if grid p2 = [] then
                    p2\<lparr>grid := replicate (nat (height p2)) (replicate (nat (width p2)) UNKNOWN)\<rparr>
                  else p2)
        in (case validate p3 of Inl e \<Rightarrow> Inl e | Inr u \<Rightarrow> Inr p3))"

text \<open>The construction \<^verbatim>\<open>Puzzle(width, height, row_clues, col_clues, grid)\<close>: the fields
  are set and \<open>__post_init__\<close> runs.\<close>

definition Puzzle_init ::
  "int \<Rightarrow> int \<Rightarrow> int list list \<Rightarrow> int list list \<Rightarrow> int list list \<Rightarrow> exn + Puzzle" where
  "Puzzle_init w h rcl ccl g =
     post_init \<lparr>width = w, height = h, row_clues = rcl, col_clues = ccl, grid = g\<rparr>"

text \<open>\<open>_normalize_clues\<close>, on clues whose values are integers.\<close>

fun normalize_line :: "int list \<Rightarrow> exn + int list" where
  "normalize_line [] = Inr []"
| "normalize_line (n # ns) =
     (if n \<le> 0 then Inl (ValueError ''clue values must be positive integers'')
      else (case normalize_line ns of Inl e \<Rightarrow> Inl e | Inr cleaned \<Rightarrow> Inr (n # cleaned)))"

fun normalize_clues :: "int list list \<Rightarrow> exn + int list list" where
  "normalize_clues [] = Inr []"
| "normalize_clues (line # clues) =
     (case normalize_line line of
        Inl e \<Rightarrow> Inl e
      | Inr cleaned \<Rightarrow>
          (case normalize_clues clues of Inl e \<Rightarrow> Inl e | Inr result \<Rightarrow> Inr (cleaned # result)))"

text \<open>
  \<open>load_json\<close>, from the fields of the parsed file: \<open>w\<close>, \<open>h\<close> are \<open>0\<close> and the lists are
  \<open>[]\<close> for a key that the file does not have.
\<close>

definition load_json ::
  "int \<Rightarrow> int \<Rightarrow> int list list \<Rightarrow> int list list \<Rightarrow> int list list \<Rightarrow> exn + Puzzle" where
  "load_json w h rcl ccl g =
     (case normalize_clues rcl of
        Inl e \<Rightarrow> Inl e
      | Inr rc \<Rightarrow>
          (case normalize_clues ccl of
             Inl e \<Rightarrow> Inl e
           | Inr cc \<Rightarrow>
               Puzzle_init w h rc cc
                 (if g = [] then replicate (nat h) (replicate (nat w) UNKNOWN) else g)))"

text \<open>
  The condition of the specification on a clue: the total length of its blocks, plus
  the separators between them, does not exceed the length of the line.
\<close>

definition clue_fits :: "int list \<Rightarrow> int \<Rightarrow> bool" where
  "clue_fits blocks len \<longleftrightarrow> blocks = [] \<or> sum_list blocks + (int (length blocks) - 1) \<le> len"

definition has_unfit_clue :: "Puzzle \<Rightarrow> bool" where
  "has_unfit_clue p \<longleftrightarrow>
     list_ex (\<lambda>blocks. \<not> clue_fits blocks (width p)) (row_clues p) \<or>
     list_ex (\<lambda>blocks. \<not> clue_fits blocks (height p)) (col_clues p)"

text \<open>The values of the clues are positive.\<close>

definition positive_clues :: "int list list \<Rightarrow> bool" where
  "positive_clues clues \<longleftrightarrow> list_all (list_all (\<lambda>n. 0 < n)) clues"

text \<open>What \<open>_validate\<close> asks of the fields.\<close>

definition shaped :: "Puzzle \<Rightarrow> bool" where
  "shaped p \<longleftrightarrow>
     int (length (row_clues p)) = height p \<and> int (length (col_clues p)) = width p \<and>
     int (length (grid p)) = height p \<and>
     list_all (\<lambda>row. int (length row) = width p \<and> list_all (\<lambda>v. v \<in> {UNKNOWN, EMPTY, FILLED}) row)
       (grid p)"

text \<open>The fields with their defaults.\<close>

definition with_defaults ::
  "int \<Rightarrow> int \<Rightarrow> int list list \<Rightarrow> int list list \<Rightarrow> int list list \<Rightarrow> Puzzle" where
  "with_defaults w h rcl ccl g =
     \<lparr>width = w, height = h,
      row_clues = (if rcl = [] then replicate (nat h) [] else rcl),
      col_clues = (if ccl = [] then replicate (nat w) [] else ccl),
      grid = (if g = [] then replicate (nat h) (replicate (nat w) UNKNOWN) else g)\<rparr>"


lemma check_rows_iff:
  "check_rows w rows = Inr u \<longleftrightarrow>
     list_all (\<lambda>row. int (length row) = w \<and> list_all (\<lambda>v. v \<in> {UNKNOWN, EMPTY, FILLED}) row) rows"
  by (induction rows) (auto simp: list_all_iff)

lemma validate_iff: "validate p = Inr u \<longleftrightarrow> shaped p"
  by (simp add: validate_def shaped_def check_rows_iff)

lemma Puzzle_init_iff:
  "Puzzle_init w h rcl ccl g = Inr p \<longleftrightarrow>
     0 < w \<and> 0 < h \<and> p = with_defaults w h rcl ccl g \<and> shaped p"
proof -
  have pd: "post_init \<lparr>width = w, height = h, row_clues = rcl, col_clues = ccl, grid = g\<rparr> =
        (if w \<le> 0 \<or> h \<le> 0 then Inl (ValueError ''width and height must be positive'')
         else (case validate (with_defaults w h rcl ccl g) of
                 Inl e \<Rightarrow> Inl e | Inr u \<Rightarrow> Inr (with_defaults w h rcl ccl g)))"
    by (simp add: post_init_def with_defaults_def Let_def cong: sum.case_cong)
  show ?thesis
  proof (cases "validate (with_defaults w h rcl ccl g)")
    case (Inl e)
    then have "\<not> shaped (with_defaults w h rcl ccl g)"
      using validate_iff[of "with_defaults w h rcl ccl g" "()"] by simp
    then show ?thesis using Inl by (auto simp: Puzzle_init_def pd)
  next
    case (Inr u)
    then have "shaped (with_defaults w h rcl ccl g)"
      using validate_iff[of "with_defaults w h rcl ccl g" u] by simp
    then show ?thesis using Inr by (auto simp: Puzzle_init_def pd)
  qed
qed

lemma normalize_line_eq:
  "normalize_line ns =
     (if list_all (\<lambda>n. 0 < n) ns then Inr ns
      else Inl (ValueError ''clue values must be positive integers''))"
  by (induction ns) simp_all

lemma normalize_clues_eq:
  "normalize_clues clues =
     (if positive_clues clues then Inr clues
      else Inl (ValueError ''clue values must be positive integers''))"
  by (induction clues) (simp_all add: positive_clues_def normalize_line_eq)

lemma normalize_clues_iff:
  "normalize_clues clues = Inr result \<longleftrightarrow> result = clues \<and> positive_clues clues"
  by (auto simp: normalize_clues_eq)

lemma load_json_iff:
  "load_json w h rcl ccl g = Inr p \<longleftrightarrow>
     positive_clues rcl \<and> positive_clues ccl \<and>
     0 < w \<and> 0 < h \<and> p = with_defaults w h rcl ccl g \<and> shaped p"
proof -
  have wd: "with_defaults w h rcl ccl
              (if g = [] then replicate (nat h) (replicate (nat w) UNKNOWN) else g)
            = with_defaults w h rcl ccl g" if "0 < h"
    using that by (simp add: with_defaults_def)
  show ?thesis
  proof (cases "normalize_clues rcl")
    case (Inl e)
    then have "\<not> positive_clues rcl" using normalize_clues_iff[of rcl rcl] by simp
    then show ?thesis using Inl by (simp add: load_json_def)
  next
    case rc: (Inr rc)
    then have rc': "rc = rcl" "positive_clues rcl" using normalize_clues_iff[of rcl rc] by simp_all
    show ?thesis
    proof (cases "normalize_clues ccl")
      case (Inl e)
      then have "\<not> positive_clues ccl" using normalize_clues_iff[of ccl ccl] by simp
      then show ?thesis using Inl rc by (simp add: load_json_def)
    next
      case (Inr cc)
      then have cc': "cc = ccl" "positive_clues ccl" using normalize_clues_iff[of ccl cc] by simp_all
      show ?thesis using rc Inr rc' cc' wd
        by (auto simp: load_json_def Puzzle_init_iff)
    qed
  qed
qed


lemma sum_list_map_nat:
  "list_all (\<lambda>n. 0 < n) blocks \<Longrightarrow> int (sum_list (map nat blocks)) = sum_list blocks"
  by (induction blocks) simp_all

lemma unfit_blocks:
  assumes "\<not> clue_fits blocks len" and "list_all (\<lambda>n. 0 < n) blocks" and "0 \<le> len"
  shows "map nat blocks \<noteq> [] \<and>
         nat len + 1 < sum_list (map nat blocks) + length (map nat blocks)"
proof -
  from assms(1) have ne: "blocks \<noteq> []" and gt: "len < sum_list blocks + (int (length blocks) - 1)"
    by (simp_all add: clue_fits_def)
  from gt sum_list_map_nat[OF assms(2)]
  have "len + 1 < int (sum_list (map nat blocks) + length blocks)" by simp
  then have "int (nat len + 1) < int (sum_list (map nat blocks) + length blocks)"
    using assms(3) by simp
  then have "nat len + 1 < sum_list (map nat blocks) + length blocks"
    by (simp only: of_nat_less_iff)
  then show ?thesis using ne by simp
qed

lemma load_grid_all: "load_grid heap [0..<length heap] = heap"
  by (simp add: load_grid_def map_nth)

text \<open>
  An accepted puzzle with positive clue values, one of which does not fit, given to
  \<open>solve_nonogram\<close>: the rows of its grid are the row objects of the store.
\<close>

lemma accepted_unfit_solve:
  assumes dims: "0 < w" "0 < h" and p: "p = with_defaults w h rcl ccl g" and sh: "shaped p"
    and pos: "positive_clues rcl" "positive_clues ccl" and un: "has_unfit_clue p"
  shows "\<exists>result heap'.
           solve_nonogram (Suc fuel) (grid p) [0..<length (grid p)]
             (map (map nat) (row_clues p)) (map (map nat) (col_clues p)) polls cap
             = Some (Inr result, heap') \<and>
           solutions result = [] \<and>
           (status result = ''unsolved'' \<or> status result = ''cancelled'')"
proof -
  let ?G = "grid p" and ?RC = "map (map nat) (row_clues p)" and ?CC = "map (map nat) (col_clues p)"
  have wp: "width p = w" and hp: "height p = h" by (simp_all add: p with_defaults_def)
  have posr: "positive_clues (row_clues p)" using pos(1)
    by (simp add: p with_defaults_def positive_clues_def list_all_iff)
  have posc: "positive_clues (col_clues p)" using pos(2)
    by (simp add: p with_defaults_def positive_clues_def list_all_iff)
  from sh have lr: "length (row_clues p) = nat h" and lc: "length (col_clues p) = nat w"
    and lg: "length ?G = nat h"
    and rows: "list_all (\<lambda>row. int (length row) = w) ?G"
    unfolding shaped_def wp hp by (auto simp: list_all_iff)
  have rect: "rect ?G (nat h) (nat w)"
    unfolding rect_def using lg rows by (auto simp: list_all_length)
  have wf: "well_formed ?G ?RC ?CC"
    by (rule well_formedI[OF rect]) (use dims lr lc in simp_all)
  have w0: "length (?G ! 0) = nat w" using rect dims(2) by (simp add: rect_def)
  have "unfit ?RC ?CC (nat h) (nat w)"
  proof (cases "list_ex (\<lambda>blocks. \<not> clue_fits blocks w) (row_clues p)")
    case True
    then obtain r where r: "r < length (row_clues p)" "\<not> clue_fits (row_clues p ! r) w"
      by (auto simp: list_ex_iff in_set_conv_nth)
    from posr r(1) have "list_all (\<lambda>n. 0 < n) (row_clues p ! r)"
      by (simp add: positive_clues_def list_all_length)
    from unfit_blocks[OF r(2) this] r(1) lr dims show ?thesis
      unfolding unfit_def by (intro disjI1 exI[of _ r]) simp
  next
    case False
    with un have "list_ex (\<lambda>blocks. \<not> clue_fits blocks h) (col_clues p)"
      by (simp add: has_unfit_clue_def wp hp)
    then obtain c where c: "c < length (col_clues p)" "\<not> clue_fits (col_clues p ! c) h"
      by (auto simp: list_ex_iff in_set_conv_nth)
    from posc c(1) have "list_all (\<lambda>n. 0 < n) (col_clues p ! c)"
      by (simp add: positive_clues_def list_all_length)
    from unfit_blocks[OF c(2) this] c(1) lc dims show ?thesis
      unfolding unfit_def by (intro disjI2 exI[of _ c]) simp
  qed
  then have un': "unfit ?RC ?CC (length (load_grid ?G [0..<length ?G]))
                    (length (load_grid ?G [0..<length ?G] ! 0))"
    by (simp only: load_grid_all) (simp only: lg w0)
  have valid: "\<forall>a\<in>set [0..<length ?G]. a < length ?G" by simp
  have wf': "well_formed (load_grid ?G [0..<length ?G]) ?RC ?CC"
    using wf by (simp add: load_grid_all)
  show ?thesis by (rule solve_unfit[OF valid wf' un'])
qed

text \<open>
  C5, as the code has it. Construction accepts a puzzle when its dimensions are
  positive, its clue lists and its grid have the declared lengths, and its cells are
  \<open>-1\<close>, \<open>0\<close> or \<open>1\<close>; loading asks in addition that the clue values are positive.
  Neither asks that a clue fits its line. A puzzle accepted with positive clue values
  and with a clue whose blocks and separators exceed the line reaches the solving engine,
  and the solve answers \<open>unsolved\<close> (\<open>cancelled\<close> when it was cancelled) with no grid.
\<close>

theorem unfit_clue_reaches_solver:
  "(Puzzle_init w h rcl ccl g = Inr p \<longleftrightarrow>
      0 < w \<and> 0 < h \<and> p = with_defaults w h rcl ccl g \<and> shaped p) \<and>
   (load_json w h rcl ccl g = Inr p \<longleftrightarrow>
      positive_clues rcl \<and> positive_clues ccl \<and>
      0 < w \<and> 0 < h \<and> p = with_defaults w h rcl ccl g \<and> shaped p) \<and>
   ((load_json w h rcl ccl g = Inr p \<or>
     Puzzle_init w h rcl ccl g = Inr p \<and> positive_clues rcl \<and> positive_clues ccl) \<and>
    has_unfit_clue p \<longrightarrow>
      (\<exists>result heap'.
         solve_nonogram (Suc fuel) (grid p) [0..<length (grid p)]
           (map (map nat) (row_clues p)) (map (map nat) (col_clues p)) polls cap
           = Some (Inr result, heap') \<and>
         solutions result = [] \<and>
         (status result = ''unsolved'' \<or> status result = ''cancelled'')))"
proof (intro conjI impI)
  show "Puzzle_init w h rcl ccl g = Inr p \<longleftrightarrow>
      0 < w \<and> 0 < h \<and> p = with_defaults w h rcl ccl g \<and> shaped p"
    by (rule Puzzle_init_iff)
next
  show "load_json w h rcl ccl g = Inr p \<longleftrightarrow>
      positive_clues rcl \<and> positive_clues ccl \<and>
      0 < w \<and> 0 < h \<and> p = with_defaults w h rcl ccl g \<and> shaped p"
    by (rule load_json_iff)
next
  assume a: "(load_json w h rcl ccl g = Inr p \<or>
     Puzzle_init w h rcl ccl g = Inr p \<and> positive_clues rcl \<and> positive_clues ccl) \<and>
    has_unfit_clue p"
  then have acc: "0 < w" "0 < h" "p = with_defaults w h rcl ccl g" "shaped p"
    "positive_clues rcl" "positive_clues ccl"
    using load_json_iff[of w h rcl ccl g p] Puzzle_init_iff[of w h rcl ccl g p] by auto
  from a have un: "has_unfit_clue p" by simp
  show "\<exists>result heap'.
         solve_nonogram (Suc fuel) (grid p) [0..<length (grid p)]
           (map (map nat) (row_clues p)) (map (map nat) (col_clues p)) polls cap
           = Some (Inr result, heap') \<and>
         solutions result = [] \<and>
         (status result = ''unsolved'' \<or> status result = ''cancelled'')"
    by (rule accepted_unfit_solve[OF acc un])
qed

theorem unfit_clue_reaches_solver_witness:
  "load_json 2 1 [[1]] [[2], []] [] =
     Inr \<lparr>width = 2, height = 1, row_clues = [[1]], col_clues = [[2], []],
          grid = [[UNKNOWN, UNKNOWN]]\<rparr> \<and>
   has_unfit_clue \<lparr>width = 2, height = 1, row_clues = [[1]], col_clues = [[2], []],
          grid = [[UNKNOWN, UNKNOWN]]\<rparr> \<and>
   (\<exists>result heap'.
      solve_nonogram 1 [[UNKNOWN, UNKNOWN]] [0] [[1]] [[2], []] [] 2 = Some (Inr result, heap') \<and>
      solutions result = [] \<and>
      (status result = ''unsolved'' \<or> status result = ''cancelled''))"
proof -
  let ?p = "\<lparr>width = 2, height = 1, row_clues = [[1]], col_clues = [[2], []],
          grid = [[UNKNOWN, UNKNOWN]]\<rparr>"
  have l: "load_json 2 1 [[1]] [[2], []] [] = Inr ?p" by code_simp
  have u: "has_unfit_clue ?p" by code_simp
  from unfit_clue_reaches_solver[of 2 1 "[[1]]" "[[2], []]" "[]" ?p 0 "[]" 2] l u
  show ?thesis by simp
qed

text \<open>
  C5, as the specification has it, fails: the row clue \<open>3\<close> does not fit the width \<open>2\<close>,
  construction and loading accept the puzzle, and the solving engine gets the clue
  and answers \<open>unsolved\<close>.
\<close>

theorem unfit_clue_accepted_counterexample:
  "\<not> clue_fits [3] 2 \<and>
   Puzzle_init 2 1 [[3]] [[1], [1]] [] =
     Inr \<lparr>width = 2, height = 1, row_clues = [[3]], col_clues = [[1], [1]],
          grid = [[UNKNOWN, UNKNOWN]]\<rparr> \<and>
   load_json 2 1 [[3]] [[1], [1]] [] =
     Inr \<lparr>width = 2, height = 1, row_clues = [[3]], col_clues = [[1], [1]],
          grid = [[UNKNOWN, UNKNOWN]]\<rparr> \<and>
   solve_nonogram 1 [[UNKNOWN, UNKNOWN]] [0] [[3]] [[1], [1]] [] 2 =
     Some (Inr \<lparr>status = ''unsolved'', solutions = [],
                stats = \<lparr>iterations = 1, nodes = 1, max_depth = 0, fixed_cells = 0\<rparr>,
                message = ''No solution''\<rparr>,
           [[UNKNOWN, UNKNOWN], [UNKNOWN, UNKNOWN]])"
  by code_simp

end
